theory Spec2Isabelle
  imports Complex_Main "HOL-Library.Word"
begin

section \<open>JavaScript strings\<close>

text \<open>
  A JavaScript string is a sequence of UTF-16 code units. The model covers the strings
  whose code units are below 256 (the Latin-1 range): one \<^typ>\<open>char\<close> per code unit,
  so that \<^term>\<open>length s\<close> is the \<^verbatim>\<open>.length\<close> of the source.
\<close>

definition isWhiteSpace :: "char \<Rightarrow> bool" where
  \<comment> \<open>the WhiteSpace and LineTerminator code units below 256 that \<^verbatim>\<open>trim\<close> strips:
      TAB, LF, VT, FF, CR, SPACE, NBSP\<close>
  "isWhiteSpace c =
     (c = CHR 0x09 \<or> c = CHR 0x0A \<or> c = CHR 0x0B \<or> c = CHR 0x0C \<or> c = CHR 0x0D
      \<or> c = CHR 0x20 \<or> c = CHR 0xA0)"

definition trimStart :: "string \<Rightarrow> string" where
  "trimStart s = dropWhile isWhiteSpace s"

definition trim :: "string \<Rightarrow> string" where
  "trim s = rev (dropWhile isWhiteSpace (rev (dropWhile isWhiteSpace s)))"

fun split_loop :: "char \<Rightarrow> string \<Rightarrow> string \<Rightarrow> string list" where
  "split_loop sep cur [] = [cur]"
| "split_loop sep cur (c # cs) =
     (if c = sep then cur # split_loop sep [] cs else split_loop sep (cur @ [c]) cs)"

definition split :: "char \<Rightarrow> string \<Rightarrow> string list" where
  \<comment> \<open>\<^verbatim>\<open>s.split(sep)\<close> for a one-character separator; never the empty array\<close>
  "split sep s = split_loop sep [] s"

fun includes_str :: "string \<Rightarrow> string \<Rightarrow> bool" where
  "includes_str [] pat = (pat = [])"
| "includes_str (c # cs) pat = (take (length pat) (c # cs) = pat \<or> includes_str cs pat)"

definition toLowerChar :: "char \<Rightarrow> char" where
  \<comment> \<open>lower-casing below 256: A-Z, and U+00C0..U+00DE except the multiplication sign\<close>
  "toLowerChar c =
     (let n = (of_char c :: nat) in
      if (65 \<le> n \<and> n \<le> 90) \<or> (192 \<le> n \<and> n \<le> 222 \<and> n \<noteq> 215)
      then char_of (n + 32) else c)"

definition toLowerCase :: "string \<Rightarrow> string" where
  "toLowerCase s = map toLowerChar s"

definition isDigit :: "char \<Rightarrow> bool" where
  "isDigit c = (48 \<le> (of_char c :: nat) \<and> (of_char c :: nat) \<le> 57)"

definition digitVal :: "char \<Rightarrow> nat" where
  "digitVal c = (of_char c :: nat) - 48"

section \<open>The CSV reader\<close>

text \<open>
  \<^verbatim>\<open>parseCSVLine\<close> (main.js and the web port, identical): the loop over the characters of
  the line with its three variables \<^verbatim>\<open>values\<close>, \<^verbatim>\<open>current\<close> and \<^verbatim>\<open>inQuotes\<close>.
  A double quote only flips the flag: it is not appended to \<^verbatim>\<open>current\<close>.
\<close>

fun parseCSVLine_loop :: "string \<Rightarrow> string list \<Rightarrow> string \<Rightarrow> bool \<Rightarrow> string list" where
  "parseCSVLine_loop [] values current inQuotes = values @ [trim current]"
| "parseCSVLine_loop (c # rest) values current inQuotes =
     (if c = CHR 0x22 then parseCSVLine_loop rest values current (\<not> inQuotes)
      else if c = CHR '','' \<and> \<not> inQuotes
        then parseCSVLine_loop rest (values @ [trim current]) [] inQuotes
      else parseCSVLine_loop rest values (current @ [c]) inQuotes)"

definition parseCSVLine :: "string \<Rightarrow> string list" where
  "parseCSVLine line = parseCSVLine_loop line [] [] False"

text \<open>
  Exceptions are values. \<^verbatim>\<open>EmptyCSV\<close> is \<^verbatim>\<open>new Error('CSV file is empty')\<close>;
  \<^verbatim>\<open>TypeError\<close> and \<^verbatim>\<open>RangeError\<close> are the exceptions of the runtime (a method called on
  a value that has none; a number, offset or size out of range in a \<^verbatim>\<open>Buffer\<close> call).
\<close>

datatype error = EmptyCSV | TypeError | RangeError

definition bindE :: "error + 'a \<Rightarrow> ('a \<Rightarrow> error + 'b) \<Rightarrow> error + 'b" where
  "bindE m f = (case m of Inl e \<Rightarrow> Inl e | Inr x \<Rightarrow> f x)"

text \<open>
  A CSV row is the object \<^verbatim>\<open>{}\<close> filled by \<^verbatim>\<open>row[header] = values[index] || ''\<close>: a map
  from its own property names to strings (a later duplicate header wins). The object
  inherits from \<^verbatim>\<open>Object.prototype\<close>: assigning a string to \<^verbatim>\<open>__proto__\<close> creates no
  property, and reading a name that is not an own property finds the prototype's member
  (a function or an object, truthy, without \<^verbatim>\<open>trim\<close>) when it has one of that name.
\<close>

type_synonym row = "string \<rightharpoonup> string"

datatype cell = Undefined | Str string | Inherited

definition objectPrototypeKeys :: "string list" where
  "objectPrototypeKeys =
     [''constructor'', ''__defineGetter__'', ''__defineSetter__'', ''hasOwnProperty'',
      ''__lookupGetter__'', ''__lookupSetter__'', ''isPrototypeOf'',
      ''propertyIsEnumerable'', ''toString'', ''valueOf'', ''__proto__'',
      ''toLocaleString'']"

definition rowSet :: "row \<Rightarrow> string \<Rightarrow> string \<Rightarrow> row" where
  "rowSet r key v = (if key = ''__proto__'' then r else r(key \<mapsto> v))"

definition rowGet :: "row \<Rightarrow> string \<Rightarrow> cell" where
  "rowGet r key =
     (case r key of
        Some v \<Rightarrow> Str v
      | None \<Rightarrow> if key \<in> set objectPrototypeKeys then Inherited else Undefined)"

definition valueAt :: "string list \<Rightarrow> nat \<Rightarrow> string" where
  \<comment> \<open>\<^verbatim>\<open>values[index] || ''\<close>\<close>
  "valueAt values index = (if index < length values then values ! index else [])"

fun fillRow :: "string list \<Rightarrow> nat \<Rightarrow> string list \<Rightarrow> row \<Rightarrow> row" where
  \<comment> \<open>\<^verbatim>\<open>headers.forEach((header, index) => ...)\<close>, from \<^verbatim>\<open>index\<close> on\<close>
  "fillRow [] index values r = r"
| "fillRow (header # hs) index values r =
     fillRow hs (Suc index) values (rowSet r header (valueAt values index))"

fun dataRows :: "string list \<Rightarrow> string list \<Rightarrow> row list \<Rightarrow> row list" where
  \<comment> \<open>the loop over \<^verbatim>\<open>lines[1..]\<close>, \<^verbatim>\<open>rows\<close> as accumulator\<close>
  "dataRows headers [] rows = rows"
| "dataRows headers (l # ls) rows =
     (let line = trim l in
      if line = [] then dataRows headers ls rows
      else let values = parseCSVLine line in
        if length values > 0
        then dataRows headers ls (rows @ [fillRow headers 0 values Map.empty])
        else dataRows headers ls rows)"

record csvData =
  headers :: "string list"
  rows :: "row list"

definition parseCSVWithHeaders :: "string \<Rightarrow> error + csvData" where
  "parseCSVWithHeaders csvContent =
     (let lines = split CHR 0x0A (trim csvContent) in
      case lines of
        [] \<Rightarrow> Inl EmptyCSV
      | first # rest \<Rightarrow>
          (let hs = parseCSVLine first in
           Inr \<lparr>headers = hs, rows = dataRows hs rest []\<rparr>))"

section \<open>Numbers\<close>

text \<open>
  A JavaScript number is a float64: a finite value, one of the two infinities, or NaN.
  The model has the finite values as rationals and identifies \<open>-0\<close> with \<open>0\<close> (the code
  tells them apart only as the divisor of a quotient, where the model reads \<open>+0\<close>).
\<close>

datatype jsnum = Num rat | PInf | NInf | NaN

fun jneg :: "jsnum \<Rightarrow> jsnum" where
  "jneg (Num a) = Num (- a)"
| "jneg PInf = NInf"
| "jneg NInf = PInf"
| "jneg NaN = NaN"

subsection \<open>Rounding\<close>

text \<open>
  An arithmetic operation and a conversion from text return the float64 nearest to
  their exact result (IEEE 754, round to nearest, ties to the even significand):
  a positive \<open>x\<close> with \<open>2 ^ e \<le> x < 2 ^ (e + 1)\<close> is rounded to a multiple of
  \<open>2 ^ (e - 52)\<close>, of \<open>2 ^ (- 1074)\<close> in the subnormal range, and a result that reaches
  \<open>2 ^ 1024\<close> is an infinity.
  A rational stands for a value of the code when \<open>float64\<close> leaves it unchanged.
  The conversions from text are rounded correctly too, as V8 performs them (the engine
  of Electron and Node, which run this code).
\<close>

fun ilog2 :: "nat \<Rightarrow> nat" where
  \<comment> \<open>the integer part of the binary logarithm, 0 below 2\<close>
  "ilog2 n = (if n < 2 then 0 else ilog2 (n div 2) + 1)"

declare ilog2.simps [simp del]

definition exponentOf :: "rat \<Rightarrow> int" where
  \<comment> \<open>for a positive \<open>x\<close>, the \<open>e\<close> with \<open>2 ^ e \<le> x < 2 ^ (e + 1)\<close>\<close>
  "exponentOf x =
     (if 1 \<le> x then int (ilog2 (nat \<lfloor>x\<rfloor>))
      else - int (ilog2 (nat \<lceil>1 / x\<rceil> - 1)) - 1)"

definition roundHalfEven :: "rat \<Rightarrow> int" where
  \<comment> \<open>the nearest integer, the even one of two equally near\<close>
  "roundHalfEven x =
     (let n = \<lfloor>x\<rfloor>; d = x - of_int n in
      if d < 1 / 2 then n else if 1 / 2 < d then n + 1 else if even n then n else n + 1)"

definition quantum :: "rat \<Rightarrow> int" where
  \<comment> \<open>the exponent of the spacing of the float64 values around a positive \<open>x\<close>\<close>
  "quantum x = max (exponentOf x - 52) (- 1074)"

definition overflowBound :: rat where
  "overflowBound = 2 ^ 1024"

definition roundPos :: "rat \<Rightarrow> jsnum" where
  \<comment> \<open>the float64 of a positive rational\<close>
  "roundPos x =
     (let y = of_int (roundHalfEven (x / 2 powi quantum x)) * 2 powi quantum x
      in if overflowBound \<le> y then PInf else Num y)"

definition float64 :: "rat \<Rightarrow> jsnum" where
  "float64 x = (if x = 0 then Num 0 else if 0 < x then roundPos x else jneg (roundPos (- x)))"

subsection \<open>Arithmetic\<close>

fun jadd :: "jsnum \<Rightarrow> jsnum \<Rightarrow> jsnum" where
  "jadd (Num a) (Num b) = float64 (a + b)"
| "jadd NaN y = NaN"
| "jadd x NaN = NaN"
| "jadd PInf NInf = NaN"
| "jadd NInf PInf = NaN"
| "jadd PInf y = PInf"
| "jadd x PInf = PInf"
| "jadd NInf y = NInf"
| "jadd x NInf = NInf"

definition jsub :: "jsnum \<Rightarrow> jsnum \<Rightarrow> jsnum" where
  "jsub x y = jadd x (jneg y)"

definition infOfSign :: "rat \<Rightarrow> jsnum" where
  "infOfSign a = (if a = 0 then NaN else if 0 < a then PInf else NInf)"

fun jmul :: "jsnum \<Rightarrow> jsnum \<Rightarrow> jsnum" where
  "jmul (Num a) (Num b) = float64 (a * b)"
| "jmul NaN y = NaN"
| "jmul x NaN = NaN"
| "jmul (Num a) PInf = infOfSign a"
| "jmul (Num a) NInf = infOfSign (- a)"
| "jmul PInf (Num b) = infOfSign b"
| "jmul NInf (Num b) = infOfSign (- b)"
| "jmul PInf PInf = PInf"
| "jmul NInf NInf = PInf"
| "jmul PInf NInf = NInf"
| "jmul NInf PInf = NInf"

fun jdiv :: "jsnum \<Rightarrow> jsnum \<Rightarrow> jsnum" where
  "jdiv (Num a) (Num b) = (if b = 0 then infOfSign a else float64 (a / b))"
| "jdiv NaN y = NaN"
| "jdiv x NaN = NaN"
| "jdiv (Num a) y = Num 0"
| "jdiv PInf (Num b) = (if 0 \<le> b then PInf else NInf)"
| "jdiv NInf (Num b) = (if 0 \<le> b then NInf else PInf)"
| "jdiv x y = NaN"

fun jfloor :: "jsnum \<Rightarrow> jsnum" where
  "jfloor (Num a) = Num (of_int \<lfloor>a\<rfloor>)"
| "jfloor x = x"

fun jceil :: "jsnum \<Rightarrow> jsnum" where
  "jceil (Num a) = Num (of_int \<lceil>a\<rceil>)"
| "jceil x = x"

fun jless :: "jsnum \<Rightarrow> jsnum \<Rightarrow> bool" where
  \<comment> \<open>the operator \<^verbatim>\<open><\<close>: false when either side is NaN\<close>
  "jless (Num a) (Num b) = (a < b)"
| "jless NaN y = False"
| "jless x NaN = False"
| "jless x NInf = False"
| "jless PInf y = False"
| "jless x y = True"

definition jle :: "jsnum \<Rightarrow> jsnum \<Rightarrow> bool" where
  \<comment> \<open>the operator \<^verbatim>\<open><=\<close>\<close>
  "jle x y = (x \<noteq> NaN \<and> y \<noteq> NaN \<and> \<not> jless y x)"

definition isNaN :: "jsnum \<Rightarrow> bool" where
  "isNaN x = (x = NaN)"

subsection \<open>parseInt and parseFloat\<close>

definition isHexDigit :: "char \<Rightarrow> bool" where
  "isHexDigit c =
     (let n = (of_char c :: nat) in
      (48 \<le> n \<and> n \<le> 57) \<or> (65 \<le> n \<and> n \<le> 70) \<or> (97 \<le> n \<and> n \<le> 102))"

definition hexVal :: "char \<Rightarrow> nat" where
  "hexVal c =
     (let n = (of_char c :: nat) in
      if n \<le> 57 then n - 48 else if n \<le> 70 then n - 55 else n - 87)"

definition digitsValue :: "nat \<Rightarrow> string \<Rightarrow> nat" where
  \<comment> \<open>the number a digit string denotes in the given radix (10 or 16)\<close>
  "digitsValue radix ds =
     foldl (\<lambda>acc c. acc * radix + (if radix = 16 then hexVal c else digitVal c)) 0 ds"

definition isSign :: "char \<Rightarrow> bool" where
  "isSign c = (c = CHR ''+'' \<or> c = CHR ''-'')"

definition stripSign :: "string \<Rightarrow> string" where
  "stripSign s = (case s of [] \<Rightarrow> [] | c # cs \<Rightarrow> if isSign c then cs else c # cs)"

definition isNegative :: "string \<Rightarrow> bool" where
  "isNegative s = (case s of [] \<Rightarrow> False | c # cs \<Rightarrow> c = CHR ''-'')"

definition parseInt :: "string \<Rightarrow> jsnum" where
  \<comment> \<open>\<^verbatim>\<open>parseInt(string)\<close> without a radix: leading white space, a sign, the prefix
      \<^verbatim>\<open>0x\<close> or \<^verbatim>\<open>0X\<close> for radix 16, then the longest run of digits; NaN when that run is
      empty, else the float64 of the integer it denotes. What follows the digits is
      ignored.\<close>
  "parseInt str =
     (let s0 = trimStart str;
          s1 = stripSign s0;
          hex = (take 2 s1 = ''0x'' \<or> take 2 s1 = ''0X'');
          s2 = (if hex then drop 2 s1 else s1);
          z = takeWhile (if hex then isHexDigit else isDigit) s2
      in if z = [] then NaN
         else if isNegative s0
           then float64 (- of_nat (digitsValue (if hex then 16 else 10) z))
         else float64 (of_nat (digitsValue (if hex then 16 else 10) z)))"

definition exponentPart :: "string \<Rightarrow> int" where
  \<comment> \<open>the value of an ExponentPart at the head of the string, 0 when there is none\<close>
  "exponentPart r =
     (case r of
        [] \<Rightarrow> 0
      | c # cs \<Rightarrow>
          if c = CHR ''e'' \<or> c = CHR ''E'' then
            (let ds = takeWhile isDigit (stripSign cs) in
             if ds = [] then 0
             else if isNegative cs then - int (digitsValue 10 ds)
             else int (digitsValue 10 ds))
          else 0)"

definition pow10 :: "int \<Rightarrow> rat" where
  "pow10 e = (if 0 \<le> e then 10 ^ nat e else 1 / 10 ^ nat (- e))"

definition parseFloat :: "string \<Rightarrow> jsnum" where
  \<comment> \<open>\<^verbatim>\<open>parseFloat(string)\<close>: leading white space, then the longest prefix that is a
      StrDecimalLiteral (a sign, then \<^verbatim>\<open>Infinity\<close> or digits with an optional fraction and
      exponent); NaN when there is none, else the float64 of the decimal number. What
      follows the literal is ignored.\<close>
  "parseFloat str =
     (let s0 = trimStart str;
          s1 = stripSign s0
      in if take 8 s1 = ''Infinity'' then (if isNegative s0 then NInf else PInf)
         else
           (let ip = takeWhile isDigit s1;
                r1 = dropWhile isDigit s1;
                hasDot = (r1 \<noteq> [] \<and> hd r1 = CHR ''.'');
                fp = (if hasDot then takeWhile isDigit (tl r1) else []);
                r2 = (if hasDot then dropWhile isDigit (tl r1) else r1)
            in if ip = [] \<and> fp = [] then NaN
               else
                 (let m = of_nat (digitsValue 10 ip)
                            + of_nat (digitsValue 10 fp) / 10 ^ length fp;
                      v = m * pow10 (exponentPart r2)
                  in if isNegative s0 then float64 (- v) else float64 v)))"

section \<open>The timecode parser\<close>

text \<open>
  \<^verbatim>\<open>parseTime\<close> (main.js 381-425 and the web port): \<^verbatim>\<open>null\<close> is \<^term>\<open>None\<close>.
\<close>

definition parseTime :: "string \<Rightarrow> jsnum \<Rightarrow> jsnum option" where
  "parseTime timeStr0 frameRate =
     (let timeStr = trim timeStr0 in
      if \<not> includes_str timeStr '':'' then
        (let seconds = parseFloat timeStr in
         if \<not> isNaN seconds then Some seconds else None)
      else
        (let timeParts = split CHR '':'' timeStr in
         if length timeParts = 2 then
           (let minutes = parseInt (timeParts ! 0);
                secs = parseFloat (timeParts ! 1)
            in if \<not> isNaN minutes \<and> \<not> isNaN secs
               then Some (jadd (jmul minutes (Num 60)) secs) else None)
         else if length timeParts = 3 then
           (let hours = parseInt (timeParts ! 0);
                minutes = parseInt (timeParts ! 1);
                secs = parseFloat (timeParts ! 2)
            in if \<not> isNaN hours \<and> \<not> isNaN minutes \<and> \<not> isNaN secs
               then Some (jadd (jadd (jmul hours (Num 3600)) (jmul minutes (Num 60))) secs)
               else None)
         else if length timeParts = 4 then
           (let hours = parseInt (timeParts ! 0);
                minutes = parseInt (timeParts ! 1);
                secs = parseInt (timeParts ! 2);
                frames = parseInt (timeParts ! 3)
            in if \<not> isNaN hours \<and> \<not> isNaN minutes \<and> \<not> isNaN secs \<and> \<not> isNaN frames
               then (let frameSeconds = jdiv frames frameRate in
                     Some (jadd (jadd (jadd (jmul hours (Num 3600)) (jmul minutes (Num 60)))
                                  secs) frameSeconds))
               else None)
         else None))"

section \<open>The frame-rate detector\<close>

fun jmax :: "jsnum \<Rightarrow> jsnum \<Rightarrow> jsnum" where
  "jmax NaN y = NaN"
| "jmax x NaN = NaN"
| "jmax x y = (if jless x y then y else x)"

definition mathMax :: "jsnum list \<Rightarrow> jsnum" where
  \<comment> \<open>\<^verbatim>\<open>Math.max\<close> of its arguments; minus infinity for no argument\<close>
  "mathMax xs = foldl jmax NInf xs"

text \<open>
  \<^verbatim>\<open>Math.max(...frameNumbers)\<close> passes every element of the array as an argument of one
  call. The engine throws a \<^verbatim>\<open>RangeError\<close> when the arguments do not fit on its stack:
  \<open>argumentLimit\<close> is the largest number of arguments it accepts in this call, a quantity
  of the platform that the detector takes as a parameter here.
\<close>

definition mathMaxSpread :: "nat \<Rightarrow> jsnum list \<Rightarrow> error + jsnum" where
  "mathMaxSpread argumentLimit xs =
     (if argumentLimit < length xs then Inl RangeError else Inr (mathMax xs))"

fun collectFrames :: "string list \<Rightarrow> jsnum list \<Rightarrow> jsnum list" where
  \<comment> \<open>the loop over the lines from \<^verbatim>\<open>startIndex\<close> on, \<^verbatim>\<open>frameNumbers\<close> as accumulator\<close>
  "collectFrames [] frameNumbers = frameNumbers"
| "collectFrames (l # ls) frameNumbers =
     (let line = trim l in
      if line = [] then collectFrames ls frameNumbers
      else
        (case parseCSVLine line of
           [] \<Rightarrow> collectFrames ls frameNumbers
         | v0 # vs \<Rightarrow>
             (let timeParts = split CHR '':'' (trim v0) in
              if length timeParts = 4 then
                (let frames = parseInt (timeParts ! 3) in
                 if \<not> isNaN frames then collectFrames ls (frameNumbers @ [frames])
                 else collectFrames ls frameNumbers)
              else collectFrames ls frameNumbers)))"

definition bucket :: "jsnum \<Rightarrow> jsnum" where
  "bucket maxFrame =
     (if jless maxFrame (Num 24) then Num 24
      else if jless maxFrame (Num 25) then Num 25
      else if jless maxFrame (Num 30) then Num 30
      else if jless maxFrame (Num 50) then Num 50
      else Num 60)"

definition scannedLines :: "string \<Rightarrow> error + string list" where
  \<comment> \<open>the lines the loop visits; \<^verbatim>\<open>lines[0].toLowerCase()\<close> throws when there is no
      first line\<close>
  "scannedLines csvContent =
     (case split CHR 0x0A (trim csvContent) of
        [] \<Rightarrow> Inl TypeError
      | first # rest \<Rightarrow>
          (let startIndex =
                 (if includes_str (toLowerCase first) ''time''
                     \<or> includes_str (toLowerCase first) ''name'' then 1 else 0 :: nat)
           in Inr (drop startIndex (first # rest))))"

definition detectFrameRate :: "nat \<Rightarrow> string \<Rightarrow> error + jsnum" where
  "detectFrameRate argumentLimit csvContent =
     bindE (scannedLines csvContent) (\<lambda>ls.
       let frameNumbers = collectFrames ls [] in
       if length frameNumbers = 0 then Inr (Num 30)
       else bindE (mathMaxSpread argumentLimit frameNumbers) (\<lambda>maxFrame.
         Inr (bucket maxFrame)))"

section \<open>The marker extractor\<close>

record Marker =
  time :: jsnum
  name :: string

fun filterNameParts :: "cell list \<Rightarrow> error + string list" where
  \<comment> \<open>\<^verbatim>\<open>.filter(value => value && value.trim())\<close>\<close>
  "filterNameParts [] = Inr []"
| "filterNameParts (Undefined # cs) = filterNameParts cs"
| "filterNameParts (Str v # cs) =
     (if v \<noteq> [] \<and> trim v \<noteq> []
      then bindE (filterNameParts cs) (\<lambda>r. Inr (v # r))
      else filterNameParts cs)"
| "filterNameParts (Inherited # cs) = Inl TypeError"

fun join :: "string \<Rightarrow> string list \<Rightarrow> string" where
  "join sep [] = []"
| "join sep [x] = x"
| "join sep (x # y # ys) = x @ sep @ join sep (y # ys)"

fun markersLoop ::
  "row list \<Rightarrow> jsnum \<Rightarrow> string \<Rightarrow> string list \<Rightarrow> Marker list \<Rightarrow> error + Marker list" where
  \<comment> \<open>\<^verbatim>\<open>for (const row of rows)\<close>, \<^verbatim>\<open>markers\<close> as accumulator\<close>
  "markersLoop [] frameRate timeColumn selectedFields markers = Inr markers"
| "markersLoop (r # rs) frameRate timeColumn selectedFields markers =
     (case rowGet r timeColumn of
        Undefined \<Rightarrow> markersLoop rs frameRate timeColumn selectedFields markers
      | Inherited \<Rightarrow> Inl TypeError
      | Str timeStr \<Rightarrow>
          if timeStr = [] then markersLoop rs frameRate timeColumn selectedFields markers
          else
            (case parseTime timeStr frameRate of
               None \<Rightarrow> markersLoop rs frameRate timeColumn selectedFields markers
             | Some t \<Rightarrow>
                 bindE (filterNameParts (map (rowGet r) selectedFields)) (\<lambda>nameParts.
                   let nm = (if length nameParts > 0 then join '' - '' nameParts
                             else ''Marker'')
                   in markersLoop rs frameRate timeColumn selectedFields
                        (markers @ [\<lparr>time = t, name = nm\<rparr>]))))"

text \<open>
  \<^verbatim>\<open>markers.sort((a, b) => a.time - b.time)\<close>. The sort of the language is stable, and
  it reads a NaN from the comparator as 0. Where the comparator, read so, orders the
  elements consistently (no time is NaN, or every two markers compare as equal), every
  stable sort returns the same array; the model computes it by insertion, an element
  going before the first one it is not greater than. Otherwise (a NaN time among
  different times) the language leaves the order to the engine: \<open>engineOrder\<close> is what the
  engine returns then, a parameter of the model.
\<close>

definition compareFn :: "Marker \<Rightarrow> Marker \<Rightarrow> jsnum" where
  "compareFn a b = jsub (time a) (time b)"

fun insertMarker :: "Marker \<Rightarrow> Marker list \<Rightarrow> Marker list" where
  "insertMarker x [] = [x]"
| "insertMarker x (y # ys) =
     (if jless (Num 0) (compareFn x y) then y # insertMarker x ys else x # y # ys)"

definition comparesEqual :: "Marker \<Rightarrow> Marker \<Rightarrow> bool" where
  \<comment> \<open>the comparator returns 0 or NaN\<close>
  "comparesEqual a b =
     (\<not> jless (Num 0) (compareFn a b) \<and> \<not> jless (compareFn a b) (Num 0))"

definition consistentComparator :: "Marker list \<Rightarrow> bool" where
  "consistentComparator ms =
     (list_all (\<lambda>m. time m \<noteq> NaN) ms \<or> list_all (\<lambda>a. list_all (comparesEqual a) ms) ms)"

definition sortMarkers :: "(Marker list \<Rightarrow> Marker list) \<Rightarrow> Marker list \<Rightarrow> Marker list" where
  "sortMarkers engineOrder ms =
     (if consistentComparator ms then foldr insertMarker ms [] else engineOrder ms)"

definition extractMarkers ::
  "string \<Rightarrow> jsnum \<Rightarrow> string \<Rightarrow> string list \<Rightarrow> error + Marker list" where
  \<comment> \<open>the markers in row order, before the sort\<close>
  "extractMarkers csvContent frameRate timeColumn selectedFields =
     bindE (parseCSVWithHeaders csvContent) (\<lambda>d.
       markersLoop (rows d) frameRate timeColumn selectedFields [])"

definition parseCSVWithSelectedFields ::
  "(Marker list \<Rightarrow> Marker list) \<Rightarrow> string \<Rightarrow> jsnum \<Rightarrow> string \<Rightarrow> string list
     \<Rightarrow> error + Marker list" where
  \<comment> \<open>the marker list of main.js 302-357 and of the web port; the desktop's second
      result \<^verbatim>\<open>startTimecode\<close> feeds the import automation only and is left out\<close>
  "parseCSVWithSelectedFields engineOrder csvContent frameRate timeColumn selectedFields =
     bindE (extractMarkers csvContent frameRate timeColumn selectedFields) (\<lambda>markers.
       Inr (sortMarkers engineOrder markers))"

section \<open>Buffers\<close>

text \<open>
  A \<^verbatim>\<open>Buffer\<close> is its list of bytes. A write returns the new buffer; the writes and
  \<^verbatim>\<open>Buffer.alloc\<close> throw a \<^verbatim>\<open>RangeError\<close> for a value, an offset or a size out of range
  (a NaN size is out of range as well).
  \<open>kMaxLength\<close> is the largest size the runtime allocates (\<^verbatim>\<open>buffer.constants.MAX_LENGTH\<close>),
  a constant of the platform that the encoder takes as a parameter here.
\<close>

type_synonym buffer = "8 word list"

definition numOf :: "nat \<Rightarrow> jsnum" where
  "numOf n = Num (of_nat n)"

definition Buffer_alloc :: "nat \<Rightarrow> jsnum \<Rightarrow> error + buffer" where
  "Buffer_alloc kMaxLength sz =
     (case sz of
        Num r \<Rightarrow>
          if 0 \<le> r \<and> r \<le> of_nat kMaxLength then Inr (replicate (nat \<lfloor>r\<rfloor>) 0)
          else Inl RangeError
      | _ \<Rightarrow> Inl RangeError)"

definition writeBytes :: "buffer \<Rightarrow> buffer \<Rightarrow> nat \<Rightarrow> buffer" where
  "writeBytes buf bs offset = take offset buf @ bs @ drop (offset + length bs) buf"

fun leBytes :: "nat \<Rightarrow> nat \<Rightarrow> buffer" where
  \<comment> \<open>the low \<open>n\<close> bytes of a value, least significant first\<close>
  "leBytes 0 v = []"
| "leBytes (Suc n) v = of_nat v # leBytes n (v div 256)"

definition writeUInt :: "nat \<Rightarrow> buffer \<Rightarrow> jsnum \<Rightarrow> nat \<Rightarrow> error + buffer" where
  \<comment> \<open>\<^verbatim>\<open>writeUInt8\<close>, \<^verbatim>\<open>writeUInt16LE\<close>, \<^verbatim>\<open>writeUInt32LE\<close> for \<open>n\<close> = 1, 2, 4: the value is
      checked first (\<^verbatim>\<open>value > max || value < min\<close>, which a NaN passes and is then
      written as 0), then the offset\<close>
  "writeUInt n buf v offset =
     (case v of
        Num r \<Rightarrow>
          if of_nat (256 ^ n - 1) < r \<or> r < 0 then Inl RangeError
          else if length buf < offset + n then Inl RangeError
          else Inr (writeBytes buf (leBytes n (nat \<lfloor>r\<rfloor>)) offset)
      | NaN \<Rightarrow>
          if length buf < offset + n then Inl RangeError
          else Inr (writeBytes buf (leBytes n 0) offset)
      | _ \<Rightarrow> Inl RangeError)"

definition writeUInt8 :: "buffer \<Rightarrow> jsnum \<Rightarrow> nat \<Rightarrow> error + buffer" where
  "writeUInt8 = writeUInt 1"

definition writeUInt16LE :: "buffer \<Rightarrow> jsnum \<Rightarrow> nat \<Rightarrow> error + buffer" where
  "writeUInt16LE = writeUInt 2"

definition writeUInt32LE :: "buffer \<Rightarrow> jsnum \<Rightarrow> nat \<Rightarrow> error + buffer" where
  "writeUInt32LE = writeUInt 4"

definition readUInt32LE :: "buffer \<Rightarrow> nat \<Rightarrow> error + nat" where
  "readUInt32LE buf offset =
     (if length buf < offset + 4 then Inl RangeError
      else Inr (unat (buf ! offset) + 256 * unat (buf ! (offset + 1))
                + 65536 * unat (buf ! (offset + 2)) + 16777216 * unat (buf ! (offset + 3))))"

definition utf8Char :: "char \<Rightarrow> buffer" where
  \<comment> \<open>UTF-8 of a code unit below 256: one byte below 128, two bytes from there on\<close>
  "utf8Char c =
     (let n = (of_char c :: nat) in
      if n < 128 then [of_nat n] else [of_nat (192 + n div 64), of_nat (128 + n mod 64)])"

definition utf8 :: "string \<Rightarrow> buffer" where
  "utf8 s = concat (map utf8Char s)"

definition byteLength :: "string \<Rightarrow> nat" where
  \<comment> \<open>\<^verbatim>\<open>Buffer.byteLength(s, 'utf8')\<close>\<close>
  "byteLength s = length (utf8 s)"

fun utf8Fit :: "nat \<Rightarrow> string \<Rightarrow> buffer" where
  \<comment> \<open>the UTF-8 of the longest prefix whose characters fit whole into \<open>n\<close> bytes\<close>
  "utf8Fit n [] = []"
| "utf8Fit n (c # cs) =
     (if length (utf8Char c) \<le> n then utf8Char c @ utf8Fit (n - length (utf8Char c)) cs
      else [])"

definition Buffer_write_len :: "buffer \<Rightarrow> string \<Rightarrow> nat \<Rightarrow> nat \<Rightarrow> error + buffer" where
  \<comment> \<open>\<^verbatim>\<open>buf.write(string, offset, length)\<close>: at most \<open>length\<close> bytes and never beyond the
      end of the buffer\<close>
  "Buffer_write_len buf s offset len =
     (if length buf < offset \<or> length buf < len then Inl RangeError
      else Inr (writeBytes buf (utf8Fit (min len (length buf - offset)) s) offset))"

definition Buffer_write :: "buffer \<Rightarrow> string \<Rightarrow> nat \<Rightarrow> error + buffer" where
  \<comment> \<open>\<^verbatim>\<open>buf.write(string, offset)\<close>\<close>
  "Buffer_write buf s offset =
     (if length buf < offset then Inl RangeError
      else Inr (writeBytes buf (utf8Fit (length buf - offset) s) offset))"

definition Buffer_concat :: "nat \<Rightarrow> buffer list \<Rightarrow> error + buffer" where
  "Buffer_concat kMaxLength bufs =
     (if length (concat bufs) \<le> kMaxLength then Inr (concat bufs) else Inl RangeError)"

definition Buffer_copy :: "buffer \<Rightarrow> buffer \<Rightarrow> nat \<Rightarrow> buffer" where
  \<comment> \<open>\<^verbatim>\<open>source.copy(target, targetStart)\<close>: as much of the source as the target holds\<close>
  "Buffer_copy source target targetStart =
     writeBytes target (take (length target - targetStart) source) targetStart"

section \<open>The encoder\<close>

text \<open>
  wav-generator.js and its web port differ in two places, which the parameter of type
  \<open>variant\<close> selects: the texts of the \<^verbatim>\<open>bext\<close> chunk, and the offset of the null
  terminator of a label (\<^verbatim>\<open>12 + label.length\<close> on the desktop,
  \<^verbatim>\<open>12 + labelByteLength\<close> on the web).
\<close>

datatype variant = Desktop | Web

record clock =
  nowMs :: nat
  fullYear :: nat
  month :: nat
  date :: nat
  hours :: nat
  minutes :: nat
  seconds :: nat

fun digitsOf :: "nat \<Rightarrow> string" where
  \<comment> \<open>\<^verbatim>\<open>String(n)\<close> for a natural number\<close>
  "digitsOf n =
     (if n < 10 then [char_of (48 + n)] else digitsOf (n div 10) @ [char_of (48 + n mod 10)])"

declare digitsOf.simps [simp del]

definition padStart2 :: "string \<Rightarrow> string" where
  \<comment> \<open>\<^verbatim>\<open>s.padStart(2, '0')\<close>\<close>
  "padStart2 s = replicate (2 - length s) CHR ''0'' @ s"

definition createChunkHeader :: "nat \<Rightarrow> string \<Rightarrow> nat \<Rightarrow> error + buffer" where
  "createChunkHeader K ident sz =
     bindE (Buffer_alloc K (numOf 8)) (\<lambda>h0.
     bindE (Buffer_write h0 ident 0) (\<lambda>h1.
     writeUInt32LE h1 (numOf sz) 4))"

definition createFmtChunk :: "nat \<Rightarrow> rat \<Rightarrow> rat \<Rightarrow> rat \<Rightarrow> error + buffer" where
  "createFmtChunk K sampleRate numChannels bitsPerSample =
     bindE (Buffer_alloc K (numOf 16)) (\<lambda>c0.
     let blockAlign = numChannels * (bitsPerSample / 8);
         byteRate = sampleRate * blockAlign
     in
     bindE (writeUInt16LE c0 (Num 1) 0) (\<lambda>c1.
     bindE (writeUInt16LE c1 (Num numChannels) 2) (\<lambda>c2.
     bindE (writeUInt32LE c2 (Num sampleRate) 4) (\<lambda>c3.
     bindE (writeUInt32LE c3 (Num byteRate) 8) (\<lambda>c4.
     bindE (writeUInt16LE c4 (Num blockAlign) 12) (\<lambda>c5.
     writeUInt16LE c5 (Num bitsPerSample) 14))))))"

definition createBextChunk :: "variant \<Rightarrow> nat \<Rightarrow> clock \<Rightarrow> error + buffer" where
  "createBextChunk v K clk =
     bindE (Buffer_alloc K (numOf 602)) (\<lambda>c0.
     let description = (case v of Desktop \<Rightarrow> ''CueSynch - Generated marker file''
                        | Web \<Rightarrow> ''CueSynch Web - Generated marker file'');
         originator = (case v of Desktop \<Rightarrow> ''CueSynch'' | Web \<Rightarrow> ''CueSynch Web'');
         originatorRef = ''CSV2LOGIC'' @ digitsOf (nowMs clk);
         originationDate = digitsOf (fullYear clk) @ '':''
            @ padStart2 (digitsOf (month clk + 1)) @ '':'' @ padStart2 (digitsOf (date clk));
         originationTime = padStart2 (digitsOf (hours clk)) @ '':''
            @ padStart2 (digitsOf (minutes clk)) @ '':'' @ padStart2 (digitsOf (seconds clk))
     in
     bindE (Buffer_write_len c0 description 0 256) (\<lambda>c1.
     bindE (Buffer_write_len c1 originator 256 32) (\<lambda>c2.
     bindE (Buffer_write_len c2 originatorRef 288 32) (\<lambda>c3.
     bindE (Buffer_write_len c3 originationDate 320 10) (\<lambda>c4.
     bindE (Buffer_write_len c4 originationTime 330 8) (\<lambda>c5.
     bindE (writeUInt32LE c5 (Num 0) 338) (\<lambda>c6.
     bindE (writeUInt32LE c6 (Num 0) 342) (\<lambda>c7.
     writeUInt16LE c7 (Num 2) 346))))))))"

fun cueLoop :: "Marker list \<Rightarrow> rat \<Rightarrow> nat \<Rightarrow> nat \<Rightarrow> buffer \<Rightarrow> error + buffer" where
  \<comment> \<open>\<^verbatim>\<open>markers.forEach((marker, index) => ...)\<close> with the variable \<^verbatim>\<open>offset\<close>\<close>
  "cueLoop [] sampleRate index offset chunk = Inr chunk"
| "cueLoop (marker # ms) sampleRate index offset chunk =
     (let samplePosition = jfloor (jmul (time marker) (Num sampleRate)) in
      bindE (writeUInt32LE chunk (numOf (index + 1)) offset) (\<lambda>c1.
      bindE (writeUInt32LE c1 samplePosition (offset + 4)) (\<lambda>c2.
      bindE (Buffer_write c2 ''data'' (offset + 8)) (\<lambda>c3.
      bindE (writeUInt32LE c3 (Num 0) (offset + 12)) (\<lambda>c4.
      bindE (writeUInt32LE c4 (Num 0) (offset + 16)) (\<lambda>c5.
      bindE (writeUInt32LE c5 samplePosition (offset + 20)) (\<lambda>c6.
      cueLoop ms sampleRate (index + 1) (offset + 24) c6)))))))"

definition createCueChunk :: "nat \<Rightarrow> Marker list \<Rightarrow> rat \<Rightarrow> error + buffer" where
  "createCueChunk K markers sampleRate =
     (let numCuePoints = length markers in
      bindE (Buffer_alloc K (numOf (4 + numCuePoints * 24))) (\<lambda>c0.
      bindE (writeUInt32LE c0 (numOf numCuePoints) 0) (\<lambda>c1.
      cueLoop markers sampleRate 0 4 c1)))"

definition lablSubChunk :: "variant \<Rightarrow> nat \<Rightarrow> Marker \<Rightarrow> nat \<Rightarrow> error + buffer" where
  \<comment> \<open>the body of the \<^verbatim>\<open>forEach\<close> of \<^verbatim>\<open>createListChunk\<close>\<close>
  "lablSubChunk v K marker index =
     (let label = name marker;
          labelByteLength = byteLength label;
          labelLength = labelByteLength + 1;
          paddedLength = labelLength + labelLength mod 2
      in
      bindE (Buffer_alloc K (numOf (8 + 4 + paddedLength))) (\<lambda>s0.
      bindE (Buffer_write s0 ''labl'' 0) (\<lambda>s1.
      bindE (writeUInt32LE s1 (numOf (4 + paddedLength)) 4) (\<lambda>s2.
      bindE (writeUInt32LE s2 (numOf (index + 1)) 8) (\<lambda>s3.
      bindE (Buffer_write s3 label 12) (\<lambda>s4.
      writeUInt8 s4 (Num 0)
        (12 + (case v of Desktop \<Rightarrow> length label | Web \<Rightarrow> labelByteLength))))))))"

fun lablLoop :: "variant \<Rightarrow> nat \<Rightarrow> Marker list \<Rightarrow> nat \<Rightarrow> buffer list \<Rightarrow> error + buffer list" where
  "lablLoop v K [] index subChunks = Inr subChunks"
| "lablLoop v K (marker # ms) index subChunks =
     bindE (lablSubChunk v K marker index) (\<lambda>subChunk.
       lablLoop v K ms (index + 1) (subChunks @ [subChunk]))"

definition createListChunk :: "variant \<Rightarrow> nat \<Rightarrow> Marker list \<Rightarrow> error + buffer" where
  "createListChunk v K markers =
     bindE (lablLoop v K markers 0 []) (\<lambda>subChunks.
     bindE (Buffer_concat K subChunks) (\<lambda>subChunksBuffer.
     bindE (Buffer_alloc K (numOf (4 + length subChunksBuffer))) (\<lambda>l0.
     bindE (Buffer_write l0 ''adtl'' 0) (\<lambda>l1.
     Inr (Buffer_copy subChunksBuffer l1 4)))))"

definition createDataChunk :: "nat \<Rightarrow> jsnum \<Rightarrow> rat \<Rightarrow> rat \<Rightarrow> error + buffer" where
  "createDataChunk K numSamples numChannels bytesPerSample =
     (let dataSize = jmul (jmul numSamples (Num numChannels)) (Num bytesPerSample) in
      Buffer_alloc K dataSize)"

definition wavDuration :: "Marker list \<Rightarrow> jsnum" where
  \<comment> \<open>\<^verbatim>\<open>markers.length > 0 ? Math.ceil(markers[markers.length - 1].time) + 1 : 10\<close>\<close>
  "wavDuration markers =
     (if length markers > 0 then jadd (jceil (time (last markers))) (Num 1) else Num 10)"

definition generateWavWithMarkers ::
  "variant \<Rightarrow> nat \<Rightarrow> clock \<Rightarrow> Marker list \<Rightarrow> error + buffer" where
  \<comment> \<open>the bytes of the file: the web port returns them, the desktop writes them to
      \<^verbatim>\<open>outputPath\<close>\<close>
  "generateWavWithMarkers v K clk markers =
     (let sampleRate = 44100;
          numChannels = 2;
          bitsPerSample = 16;
          bytesPerSample = bitsPerSample / 8;
          duration = wavDuration markers;
          numSamples = jmul duration (Num sampleRate)
      in
      bindE (createFmtChunk K sampleRate numChannels bitsPerSample) (\<lambda>fmtChunk.
      bindE (createBextChunk v K clk) (\<lambda>bextChunk.
      bindE (createCueChunk K markers sampleRate) (\<lambda>cueChunk.
      bindE (createListChunk v K markers) (\<lambda>listChunk.
      bindE (createDataChunk K numSamples numChannels bytesPerSample) (\<lambda>dataChunk.
      let fileSize = 4 + 8 + length fmtChunk + 8 + length bextChunk + 8 + length dataChunk
                       + 8 + length cueChunk + 8 + length listChunk
      in
      bindE (Buffer_alloc K (numOf 12)) (\<lambda>r0.
      bindE (Buffer_write r0 ''RIFF'' 0) (\<lambda>r1.
      bindE (writeUInt32LE r1 (numOf fileSize) 4) (\<lambda>r2.
      bindE (Buffer_write r2 ''WAVE'' 8) (\<lambda>riffHeader.
      bindE (createChunkHeader K ''fmt '' (length fmtChunk)) (\<lambda>h1.
      bindE (createChunkHeader K ''bext'' (length bextChunk)) (\<lambda>h2.
      bindE (createChunkHeader K ''data'' (length dataChunk)) (\<lambda>h3.
      bindE (createChunkHeader K ''cue '' (length cueChunk)) (\<lambda>h4.
      bindE (createChunkHeader K ''LIST'' (length listChunk)) (\<lambda>h5.
      Buffer_concat K
        [riffHeader, h1, fmtChunk, h2, bextChunk, h3, dataChunk, h4, cueChunk,
         h5, listChunk])))))))))))))))"

section \<open>The conversion handlers\<close>

text \<open>
  The desktop handler \<^verbatim>\<open>ipcMain.handle('generate-wav')\<close> (main.js 72-224), from the text
  of the CSV file on: the answer of the save dialog is the argument \<open>filePath\<close>
  (\<^term>\<open>None\<close> when the user cancels), and a success carries the path and the bytes
  written. Every exception ends in the \<^verbatim>\<open>catch\<close> that answers \<^verbatim>\<open>success: false\<close>.
  Both handlers pass on \<open>engineOrder\<close>, the parameter of the sort.
\<close>

datatype failure = SaveCancelled | Caught error

datatype ipcResult = IpcSuccess string buffer | IpcFailure failure

definition generateWavHandler ::
  "(Marker list \<Rightarrow> Marker list) \<Rightarrow> nat \<Rightarrow> clock \<Rightarrow> string \<Rightarrow> jsnum \<Rightarrow> string
     \<Rightarrow> string list \<Rightarrow> string option \<Rightarrow> ipcResult" where
  "generateWavHandler engineOrder K clk csvContent frameRate timeColumn selectedFields
       filePath =
     (case parseCSVWithSelectedFields engineOrder csvContent frameRate timeColumn
             selectedFields of
        Inl e \<Rightarrow> IpcFailure (Caught e)
      | Inr markers \<Rightarrow>
          (case filePath of
             None \<Rightarrow> IpcFailure SaveCancelled
           | Some path \<Rightarrow>
               (case generateWavWithMarkers Desktop K clk markers of
                  Inl e \<Rightarrow> IpcFailure (Caught e)
                | Inr wavBuffer \<Rightarrow> IpcSuccess path wavBuffer)))"

definition isSuccess :: "ipcResult \<Rightarrow> bool" where
  "isSuccess r = (case r of IpcSuccess path wav \<Rightarrow> True | IpcFailure f \<Rightarrow> False)"

text \<open>
  The web handler \<^verbatim>\<open>POST\<close> (route.ts): \<open>file\<close> is the text of the uploaded file
  (\<^term>\<open>None\<close> when the form has none), \<open>selectedFields\<close> the parsed JSON list
  (\<^term>\<open>None\<close> when the form field is missing or empty), and an empty \<open>timeColumn\<close>
  stands for a missing one as well. The answers are the two JSON errors, with their
  status, and the WAV file.
\<close>

datatype response = Json400 string | Json500 error | WavFile buffer

definition POST ::
  "(Marker list \<Rightarrow> Marker list) \<Rightarrow> nat \<Rightarrow> clock \<Rightarrow> string option \<Rightarrow> jsnum \<Rightarrow> string
     \<Rightarrow> string list option \<Rightarrow> response" where
  "POST engineOrder K clk file frameRate timeColumn selectedFields =
     (case (file, selectedFields) of
        (Some csvContent, Some sel) \<Rightarrow>
          if timeColumn = [] then Json400 ''Missing required parameters''
          else
            (case parseCSVWithSelectedFields engineOrder csvContent frameRate timeColumn
                    sel of
               Inl e \<Rightarrow> Json500 e
             | Inr markers \<Rightarrow>
                 if length markers = 0 then Json400 ''No valid markers found in CSV''
                 else
                   (case generateWavWithMarkers Web K clk markers of
                      Inl e \<Rightarrow> Json500 e
                    | Inr wavBuffer \<Rightarrow> WavFile wavBuffer))
      | _ \<Rightarrow> Json400 ''Missing required parameters'')"

section \<open>Predicates used in the statements\<close>

definition isNum :: "jsnum \<Rightarrow> bool" where
  "isNum x = (case x of Num r \<Rightarrow> True | _ \<Rightarrow> False)"

definition hasFourPartTimecode :: "string \<Rightarrow> bool" where
  \<comment> \<open>a scanned line that is not blank and whose first field has exactly four parts\<close>
  "hasFourPartTimecode l =
     (trim l \<noteq> [] \<and>
      (case parseCSVLine (trim l) of
         [] \<Rightarrow> False
       | v0 # vs \<Rightarrow> length (split CHR '':'' (trim v0)) = 4))"

definition startsNumeric :: "string \<Rightarrow> bool" where
  \<comment> \<open>after white space and a sign the text begins with \<^verbatim>\<open>Infinity\<close>, a digit, or a
      point and a digit\<close>
  "startsNumeric s =
     (let t = stripSign (trimStart s) in
      take 8 t = ''Infinity'' \<or>
      (case t of
         [] \<Rightarrow> False
       | c # cs \<Rightarrow>
           isDigit c \<or> (c = CHR ''.'' \<and> (case cs of [] \<Rightarrow> False | d # ds \<Rightarrow> isDigit d))))"

definition startsInteger :: "string \<Rightarrow> bool" where
  \<comment> \<open>after white space and a sign the text begins with a digit, or with \<^verbatim>\<open>0x\<close> and a
      hexadecimal digit\<close>
  "startsInteger s =
     (let t = stripSign (trimStart s) in
      if take 2 t = ''0x'' \<or> take 2 t = ''0X''
      then (case drop 2 t of [] \<Rightarrow> False | c # cs \<Rightarrow> isHexDigit c)
      else (case t of [] \<Rightarrow> False | c # cs \<Rightarrow> isDigit c))"

definition slice :: "buffer \<Rightarrow> nat \<Rightarrow> nat \<Rightarrow> buffer" where
  \<comment> \<open>the \<open>n\<close> bytes of a buffer from \<open>offset\<close> on\<close>
  "slice buf offset n = take n (drop offset buf)"

definition leValue :: "buffer \<Rightarrow> nat" where
  \<comment> \<open>the number that bytes denote, least significant first\<close>
  "leValue bs = foldr (\<lambda>b acc. unat b + 256 * acc) bs 0"

definition wrote :: "buffer \<Rightarrow> buffer \<Rightarrow> nat \<Rightarrow> nat \<Rightarrow> bool" where
  \<comment> \<open>\<open>b\<close> is \<open>buf\<close> but for the bytes from \<open>lo\<close> up to \<open>hi\<close>\<close>
  "wrote buf b lo hi =
     (length b = length buf \<and> take lo b = take lo buf \<and> drop hi b = drop hi buf)"

definition okLen :: "error + buffer \<Rightarrow> nat \<Rightarrow> bool" where
  \<comment> \<open>the call returns a buffer of \<open>n\<close> bytes\<close>
  "okLen m n = (case m of Inl e \<Rightarrow> False | Inr b \<Rightarrow> length b = n)"

definition paddedLength :: "string \<Rightarrow> nat" where
  \<comment> \<open>the bytes of a label with its terminator, padded to an even number\<close>
  "paddedLength label = (byteLength label + 1) + (byteLength label + 1) mod 2"

definition lablSize :: "Marker list \<Rightarrow> nat" where
  \<comment> \<open>the bytes of all \<^verbatim>\<open>labl\<close> sub-chunks, each with its 8-byte header and cue ID\<close>
  "lablSize ms = sum_list (map (\<lambda>m. 12 + paddedLength (name m)) ms)"

definition wavSeconds :: "Marker list \<Rightarrow> nat" where
  \<comment> \<open>the duration as a natural number of seconds\<close>
  "wavSeconds ms = (case wavDuration ms of Num d \<Rightarrow> nat \<lfloor>d\<rfloor> | _ \<Rightarrow> 0)"

definition wavSize :: "Marker list \<Rightarrow> nat" where
  \<comment> \<open>the bytes of the file: 12 for the RIFF header, 8 + 16 for \<^verbatim>\<open>fmt\<close>, 8 + 602 for
      \<^verbatim>\<open>bext\<close>, 8 and the samples for \<^verbatim>\<open>data\<close>, 8 + 4 and 24 a marker for \<^verbatim>\<open>cue\<close>,
      8 + 4 and the sub-chunks for \<^verbatim>\<open>LIST\<close>\<close>
  "wavSize ms = 678 + wavSeconds ms * 176400 + 24 * length ms + lablSize ms"

definition intText :: "int \<Rightarrow> nat \<Rightarrow> string" where
  \<comment> \<open>an integer in decimal, with a minus sign when negative and \<open>z\<close> leading zeros\<close>
  "intText n z =
     (if n < 0 then ''-'' else []) @ replicate z CHR ''0'' @ digitsOf (nat \<bar>n\<bar>)"

definition gridUnit :: rat where
  \<comment> \<open>the least positive float64\<close>
  "gridUnit = 1 / 2 ^ 1074"

definition onGrid :: "rat \<Rightarrow> bool" where
  \<comment> \<open>a multiple of the least positive float64, as every float64 is\<close>
  "onGrid r = (of_int \<lfloor>r / gridUnit\<rfloor> = r / gridUnit)"

definition rounded :: "rat \<Rightarrow> rat" where
  \<comment> \<open>the rounding of a positive rational before the test for overflow\<close>
  "rounded x = of_int (roundHalfEven (x / 2 powi quantum x)) * 2 powi quantum x"

definition numOnGrid :: "jsnum \<Rightarrow> bool" where
  "numOnGrid x = (case x of Num r \<Rightarrow> onGrid r | _ \<Rightarrow> True)"

definition orderedTime :: "Marker \<Rightarrow> bool" where
  \<comment> \<open>a time that the comparator orders: a float64 or an infinity\<close>
  "orderedTime m = (time m \<noteq> NaN \<and> numOnGrid (time m))"

definition framesCSV :: "nat \<Rightarrow> string" where
  \<comment> \<open>a header line and \<open>n\<close> rows with the timecode \<^verbatim>\<open>00:00:01:12\<close>\<close>
  "framesCSV n = ''time,name'' @ concat (replicate n (CHR 0x0A # ''00:00:01:12,x''))"

section \<open>Properties of the rounding\<close>

text \<open>
  The exponent is the one of the binary expansion, rounding is monotone and exact on the
  values that fit 53 bits, and its results are multiples of the least positive float64.
\<close>

lemma ilog2_bounds: "0 < n \<Longrightarrow> 2 ^ ilog2 n \<le> n \<and> n < 2 ^ (ilog2 n + 1)"
proof (induction n rule: ilog2.induct)
  case (1 n)
  show ?case
  proof (cases "n < 2")
    case True
    with 1 show ?thesis by (simp add: ilog2.simps)
  next
    case False
    then have "0 < n div 2" by simp
    with 1 False have ih: "2 ^ ilog2 (n div 2) \<le> n div 2" "n div 2 < 2 ^ (ilog2 (n div 2) + 1)"
      by simp_all
    have e: "ilog2 n = ilog2 (n div 2) + 1" using False by (simp add: ilog2.simps)
    from ih show ?thesis unfolding e by auto
  qed
qed

lemma pow_le_rat: "2 ^ k \<le> n \<Longrightarrow> (2 :: rat) ^ k \<le> of_nat n"
proof -
  assume "2 ^ k \<le> n"
  then have "(of_nat (2 ^ k) :: rat) \<le> of_nat n" by (simp only: of_nat_le_iff)
  then show ?thesis by simp
qed

lemma le_pow_rat: "n + 1 \<le> 2 ^ k \<Longrightarrow> (of_nat n :: rat) + 1 \<le> 2 ^ k"
proof -
  assume "n + 1 \<le> 2 ^ k"
  then have "(of_nat (n + 1) :: rat) \<le> of_nat (2 ^ k)" by (simp only: of_nat_le_iff)
  then show ?thesis by simp
qed

lemma powi_neg_nat: "(2 :: rat) powi (- int k) = 1 / 2 ^ k"
  by (simp add: power_int_minus_divide)

lemma exponentOf_bounds:
  assumes "0 < x"
  shows "2 powi exponentOf x \<le> x" and "x < 2 powi (exponentOf x + 1)"
proof -
  have "2 powi exponentOf x \<le> x \<and> x < 2 powi (exponentOf x + 1)"
  proof (cases "1 \<le> x")
    case True
    define n where "n = nat \<lfloor>x\<rfloor>"
    have n1: "0 < n" using True by (simp add: n_def)
    have fl: "\<lfloor>x\<rfloor> = int n" using True by (simp add: n_def)
    have lo: "(of_nat n :: rat) \<le> x"
      using of_int_floor_le [of x] unfolding fl by simp
    have hi: "x < of_nat n + 1"
      using floor_correct [of x] unfolding fl by simp
    from ilog2_bounds [OF n1] have b: "2 ^ ilog2 n \<le> n" "n + 1 \<le> 2 ^ (ilog2 n + 1)" by simp_all
    have b1: "(2 :: rat) ^ ilog2 n \<le> of_nat n" using b(1) by (rule pow_le_rat)
    have b2: "(of_nat n :: rat) + 1 \<le> 2 ^ (ilog2 n + 1)" using b(2) by (rule le_pow_rat)
    have e: "exponentOf x = int (ilog2 n)" using True by (simp add: exponentOf_def n_def)
    have e1: "exponentOf x + 1 = int (ilog2 n + 1)" using e by simp
    show ?thesis unfolding e1 unfolding e power_int_of_nat using b1 b2 lo hi by linarith
  next
    case False
    define y where "y = 1 / x"
    have y1: "1 < y" using False assms by (simp add: y_def)
    define m where "m = nat \<lceil>y\<rceil> - 1"
    have c2: "2 \<le> \<lceil>y\<rceil>" using y1 by (simp add: le_ceiling_iff)
    have m1: "0 < m" using c2 by (simp add: m_def)
    have cm: "\<lceil>y\<rceil> = int m + 1" using c2 unfolding m_def by linarith
    have lo: "of_nat m < y"
      using ceiling_correct [of y] unfolding cm by simp
    have hi: "y \<le> of_nat m + 1"
      using ceiling_correct [of y] unfolding cm by simp
    from ilog2_bounds [OF m1] have b: "2 ^ ilog2 m \<le> m" "m + 1 \<le> 2 ^ (ilog2 m + 1)" by simp_all
    have b1: "(2 :: rat) ^ ilog2 m \<le> of_nat m" using b(1) by (rule pow_le_rat)
    have b2: "(of_nat m :: rat) + 1 \<le> 2 ^ (ilog2 m + 1)" using b(2) by (rule le_pow_rat)
    have e: "exponentOf x = - int (ilog2 m + 1)"
      using False by (simp add: exponentOf_def m_def y_def)
    have e1: "exponentOf x + 1 = - int (ilog2 m)" using e by simp
    have y2: "y \<le> 2 ^ (ilog2 m + 1)" using hi b2 by linarith
    have y3: "2 ^ ilog2 m < y" using lo b1 by linarith
    have x1: "1 / 2 ^ (ilog2 m + 1) \<le> x"
      using y2 assms unfolding y_def by (simp add: field_simps)
    have x2: "x < 1 / 2 ^ ilog2 m"
      using y3 assms unfolding y_def by (simp add: field_simps)
    show ?thesis unfolding e1 unfolding e powi_neg_nat using x1 x2 by simp
  qed
  then show "2 powi exponentOf x \<le> x" and "x < 2 powi (exponentOf x + 1)" by simp_all
qed

lemma p2_pos: "0 < (2 :: rat) powi a"
  by simp

lemma p2_mono: "a \<le> b \<Longrightarrow> (2 :: rat) powi a \<le> 2 powi b"
  by (rule power_int_increasing) simp_all

lemma p2_strict: "a < b \<Longrightarrow> (2 :: rat) powi a < 2 powi b"
  by (rule power_int_strict_increasing) simp_all

lemma p2_less_iff: "(2 :: rat) powi a < 2 powi b \<longleftrightarrow> a < b"
  using p2_mono [of b a] p2_strict [of a b] by (auto simp: not_le [symmetric])

lemma p2_le_iff: "(2 :: rat) powi a \<le> 2 powi b \<longleftrightarrow> a \<le> b"
  using p2_mono [of a b] p2_strict [of b a] by (auto simp: not_less [symmetric])

lemma p2_add: "(2 :: rat) powi (a + b) = 2 powi a * 2 powi b"
  by (rule power_int_add) simp

lemma p2_diff: "(2 :: rat) powi (a - b) = 2 powi a / 2 powi b"
  by (rule power_int_diff) simp

lemma exponentOf_unique:
  assumes "0 < x" "2 powi e \<le> x" "x < 2 powi (e + 1)"
  shows "exponentOf x = e"
proof -
  note b = exponentOf_bounds [OF assms(1)]
  have "(2 :: rat) powi exponentOf x < 2 powi (e + 1)" using b(1) assms(3) by linarith
  then have 1: "exponentOf x < e + 1" by (simp only: p2_less_iff)
  have "(2 :: rat) powi e < 2 powi (exponentOf x + 1)" using b(2) assms(2) by linarith
  then have 2: "e < exponentOf x + 1" by (simp only: p2_less_iff)
  from 1 2 show ?thesis by simp
qed

lemma rhe_floor: "\<lfloor>x\<rfloor> \<le> roundHalfEven x \<and> roundHalfEven x \<le> \<lfloor>x\<rfloor> + 1"
  by (simp add: roundHalfEven_def Let_def)

lemma rhe_of_int [simp]: "roundHalfEven (of_int k) = k"
  by (simp add: roundHalfEven_def Let_def)

lemma rhe_near: "\<bar>of_int (roundHalfEven x) - x\<bar> \<le> 1 / 2"
proof -
  have "of_int \<lfloor>x\<rfloor> \<le> x" "x < of_int \<lfloor>x\<rfloor> + 1" by linarith+
  then show ?thesis by (auto simp: roundHalfEven_def Let_def)
qed

lemma rhe_mono: "x \<le> y \<Longrightarrow> roundHalfEven x \<le> roundHalfEven y"
proof -
  assume xy: "x \<le> y"
  then have f: "\<lfloor>x\<rfloor> \<le> \<lfloor>y\<rfloor>" by (rule floor_mono)
  show ?thesis
  proof (cases "\<lfloor>x\<rfloor> = \<lfloor>y\<rfloor>")
    case True
    then show ?thesis using xy by (auto simp: roundHalfEven_def Let_def)
  next
    case False
    with f have "\<lfloor>x\<rfloor> + 1 \<le> \<lfloor>y\<rfloor>" by simp
    then show ?thesis using rhe_floor [of x] rhe_floor [of y] by linarith
  qed
qed

lemma rhe_unique: "\<bar>x - of_int m\<bar> < 1 / 2 \<Longrightarrow> roundHalfEven x = m"
proof -
  assume a: "\<bar>x - of_int m\<bar> < 1 / 2"
  show ?thesis
  proof (cases "of_int m \<le> x")
    case True
    then have "\<lfloor>x\<rfloor> = m" using a by (intro floor_unique) linarith+
    then show ?thesis using a True by (auto simp: roundHalfEven_def Let_def)
  next
    case False
    then have "of_int (m - 1) \<le> x" "x < of_int (m - 1) + 1" using a by simp_all
    then have "\<lfloor>x\<rfloor> = m - 1" by (rule floor_unique)
    then show ?thesis using a False by (auto simp: roundHalfEven_def Let_def)
  qed
qed

lemma rhe_ge: "of_int k \<le> x \<Longrightarrow> k \<le> roundHalfEven x"
  using rhe_mono [of "of_int k" x] by simp

lemma rhe_le: "x \<le> of_int k \<Longrightarrow> roundHalfEven x \<le> k"
  using rhe_mono [of x "of_int k"] by simp


lemma quantum_ge: "- 1074 \<le> quantum x"
  by (simp add: quantum_def)

lemma roundPos_rounded:
  "roundPos x = (if overflowBound \<le> rounded x then PInf else Num (rounded x))"
  by (simp add: roundPos_def rounded_def Let_def)

lemma rounded_nonneg: "0 < x \<Longrightarrow> 0 \<le> rounded x"
proof -
  assume "0 < x"
  then have "of_int 0 \<le> x / 2 powi quantum x" by simp
  then have "0 \<le> roundHalfEven (x / 2 powi quantum x)" by (rule rhe_ge)
  then show ?thesis by (simp add: rounded_def)
qed

lemma rounded_eqI:
  assumes "0 < x" "2 powi e \<le> x" "x < 2 powi (e + 1)"
    and "q = max (e - 52) (- 1074)" "\<bar>x / 2 powi q - of_int m\<bar> < 1 / 2"
  shows "rounded x = of_int m * 2 powi q"
proof -
  have "exponentOf x = e" using assms(1-3) by (rule exponentOf_unique)
  then have "quantum x = q" using assms(4) by (simp add: quantum_def)
  then show ?thesis using rhe_unique [OF assms(5)] by (simp add: rounded_def)
qed

lemma float64_eqI:
  assumes "0 < x" "2 powi e \<le> x" "x < 2 powi (e + 1)"
    and "q = max (e - 52) (- 1074)" "\<bar>x / 2 powi q - of_int m\<bar> < 1 / 2"
    and "of_int m * 2 powi q < overflowBound"
  shows "float64 x = Num (of_int m * 2 powi q)"
  using rounded_eqI [OF assms(1-5)] assms(1,6) by (simp add: float64_def roundPos_rounded)

lemma float64_neg: "float64 (- x) = jneg (float64 x)"
proof -
  have "jneg (jneg y) = y" for y by (cases y) simp_all
  then show ?thesis by (simp add: float64_def)
qed

lemma float64_not_NaN [simp]: "float64 x \<noteq> NaN"
  by (simp add: float64_def roundPos_rounded)

lemma float64_0 [simp]: "float64 0 = Num 0"
  by (simp add: float64_def)

lemma p2_nat: "0 \<le> k \<Longrightarrow> (2 :: rat) powi k = of_int (2 ^ nat k)"
  by (simp add: power_int_nonneg_exp)

lemma rounded_exact:
  assumes "0 < m" "m < 2 ^ 53" "- 1074 \<le> q" "x = of_int m * 2 powi q"
  shows "rounded x = x"
proof -
  have x0: "0 < x" using assms(1,4) by simp
  note b = exponentOf_bounds [OF x0]
  have "of_int m < (2 :: rat) ^ 53" using assms(2) by (metis of_int_less_iff of_int_numeral of_int_power)
  then have "of_int m < (2 :: rat) powi 53" by simp
  then have "x < 2 powi 53 * 2 powi q" unfolding assms(4) by (intro mult_strict_right_mono) simp_all
  then have "x < 2 powi (53 + q)" by (simp only: p2_add)
  with b(1) have "(2 :: rat) powi exponentOf x < 2 powi (53 + q)" by linarith
  then have "exponentOf x < 53 + q" by (simp only: p2_less_iff)
  then have "quantum x \<le> q" using assms(3) by (simp add: quantum_def)
  define Q where "Q = quantum x"
  have ql: "Q \<le> q" using \<open>quantum x \<le> q\<close> by (simp add: Q_def)
  define d where "d = nat (q - Q)"
  have "(2 :: rat) powi q = 2 powi (q - Q) * 2 powi Q"
    using p2_add [of "q - Q" Q] by simp
  also have "\<dots> = of_int (2 ^ d) * 2 powi Q"
    using ql by (simp add: p2_nat d_def)
  finally have q: "(2 :: rat) powi q = of_int (2 ^ d) * 2 powi Q" .
  have xq: "x = of_int (m * 2 ^ d) * 2 powi Q" unfolding assms(4) q by simp
  have "x / 2 powi Q = of_int (m * 2 ^ d)" by (subst xq) simp
  then have "roundHalfEven (x / 2 powi Q) = m * 2 ^ d" by (simp only: rhe_of_int)
  then have "rounded x = of_int (m * 2 ^ d) * 2 powi Q" by (simp add: rounded_def Q_def)
  then show ?thesis using xq by simp
qed

lemma float64_exact:
  assumes "\<bar>m\<bar> < 2 ^ 53" "- 1074 \<le> q" "x = of_int m * 2 powi q" "\<bar>x\<bar> < overflowBound"
  shows "float64 x = Num x"
proof -
  consider "m = 0" | "0 < m" | "m < 0" by linarith
  then show ?thesis
  proof cases
    case 1
    then show ?thesis using assms(3) by simp
  next
    case 2
    then have "rounded x = x" using assms(1-3) by (intro rounded_exact [of m q]) simp_all
    moreover have "0 < x" using 2 assms(3) by simp
    ultimately show ?thesis using assms(4) by (simp add: float64_def roundPos_rounded)
  next
    case 3
    then have "rounded (- x) = - x" using assms(1-3) by (intro rounded_exact [of "- m" q]) simp_all
    moreover have "x < 0" using 3 assms(3) by (simp add: mult_neg_pos)
    ultimately show ?thesis using assms(4) by (simp add: float64_def roundPos_rounded)
  qed
qed

lemma overflowBound_gt: "2 ^ 53 < overflowBound"
  by (simp add: overflowBound_def)

lemma float64_of_int:
  assumes "\<bar>n\<bar> \<le> 2 ^ 53"
  shows "float64 (of_int n) = Num (of_int n)"
proof (cases "\<bar>n\<bar> = 2 ^ 53")
  case True
  then have "n = 2 ^ 53 \<or> n = - (2 ^ 53)" by linarith
  then show ?thesis
  proof
    assume n: "n = 2 ^ 53"
    show ?thesis unfolding n
      by (rule float64_exact [of "2 ^ 52" 1]) (simp_all add: overflowBound_def)
  next
    assume n: "n = - (2 ^ 53)"
    show ?thesis unfolding n
      by (rule float64_exact [of "- (2 ^ 52)" 1]) (simp_all add: overflowBound_def)
  qed
next
  case False
  with assms have lt: "\<bar>n\<bar> < 2 ^ 53" by simp
  then have "\<bar>of_int n :: rat\<bar> < 2 ^ 53"
    by (metis of_int_abs of_int_less_iff of_int_numeral of_int_power)
  then have "\<bar>of_int n :: rat\<bar> < overflowBound" using overflowBound_gt by linarith
  with lt show ?thesis by (intro float64_exact [of n 0]) simp_all
qed

lemma float64_of_nat: "n \<le> 2 ^ 53 \<Longrightarrow> float64 (of_nat n) = Num (of_nat n)"
  using float64_of_int [of "int n"] by simp

lemma exponentOf_mono:
  assumes "0 < x" "x \<le> y"
  shows "exponentOf x \<le> exponentOf y"
proof -
  have y0: "0 < y" using assms by simp
  have "(2 :: rat) powi exponentOf x < 2 powi (exponentOf y + 1)"
    using exponentOf_bounds(1) [OF assms(1)] exponentOf_bounds(2) [OF y0] assms(2) by linarith
  then have "exponentOf x < exponentOf y + 1" by (simp only: p2_less_iff)
  then show ?thesis by simp
qed

lemma rounded_mono:
  assumes "0 < x" "x \<le> y"
  shows "rounded x \<le> rounded y"
proof -
  have y0: "0 < y" using assms by simp
  define ex where "ex = exponentOf x"
  define ey where "ey = exponentOf y"
  define qx where "qx = quantum x"
  define qy where "qy = quantum y"
  have ee: "ex \<le> ey" unfolding ex_def ey_def using assms by (rule exponentOf_mono)
  have qxd: "qx = max (ex - 52) (- 1074)" by (simp add: qx_def quantum_def ex_def)
  have qyd: "qy = max (ey - 52) (- 1074)" by (simp add: qy_def quantum_def ey_def)
  have rx: "rounded x = of_int (roundHalfEven (x / 2 powi qx)) * 2 powi qx"
    by (simp add: rounded_def qx_def)
  have ry: "rounded y = of_int (roundHalfEven (y / 2 powi qy)) * 2 powi qy"
    by (simp add: rounded_def qy_def)
  show ?thesis
  proof (cases "qx = qy")
    case True
    have "x / 2 powi qy \<le> y / 2 powi qy" using assms(2) by (simp add: divide_right_mono)
    then have "roundHalfEven (x / 2 powi qy) \<le> roundHalfEven (y / 2 powi qy)" by (rule rhe_mono)
    then have "(of_int (roundHalfEven (x / 2 powi qy)) :: rat) \<le> of_int (roundHalfEven (y / 2 powi qy))"
      by (simp only: of_int_le_iff)
    then show ?thesis unfolding rx ry True by (intro mult_right_mono) simp_all
  next
    case False
    then have lt: "qx < qy" using ee qxd qyd by linarith
    then have qy52: "qy = ey - 52" using qxd qyd by linarith
    have exy: "ex + 1 \<le> ey" using lt qxd qy52 by linarith
    have d0: "0 \<le> ey - qx" using lt qy52 by linarith
    have "x < 2 powi (ex + 1)" unfolding ex_def using assms(1) by (rule exponentOf_bounds(2))
    also have "\<dots> \<le> 2 powi ey" using exy by (rule p2_mono)
    finally have "x \<le> 2 powi ey" by simp
    then have "x / 2 powi qx \<le> 2 powi ey / 2 powi qx" by (simp add: divide_right_mono)
    also have "\<dots> = 2 powi (ey - qx)" by (simp only: p2_diff)
    also have "\<dots> = of_int (2 ^ nat (ey - qx))" using d0 by (rule p2_nat)
    finally have "roundHalfEven (x / 2 powi qx) \<le> 2 ^ nat (ey - qx)" by (rule rhe_le)
    then have "(of_int (roundHalfEven (x / 2 powi qx)) :: rat) \<le> of_int (2 ^ nat (ey - qx))"
      by (simp only: of_int_le_iff)
    then have "rounded x \<le> of_int (2 ^ nat (ey - qx)) * 2 powi qx"
      unfolding rx by (intro mult_right_mono) simp_all
    also have "\<dots> = 2 powi (ey - qx) * 2 powi qx" using p2_nat [OF d0] by simp
    also have "\<dots> = 2 powi ey" using p2_add [of "ey - qx" qx] by simp
    finally have A: "rounded x \<le> 2 powi ey" .
    have "2 powi ey \<le> y" unfolding ey_def using y0 by (rule exponentOf_bounds(1))
    then have "2 powi ey / 2 powi qy \<le> y / 2 powi qy" by (simp add: divide_right_mono)
    moreover have "(2 :: rat) powi ey / 2 powi qy = 2 powi 52"
      using p2_diff [of ey qy] qy52 by simp
    moreover have "(2 :: rat) powi 52 = of_int (2 ^ 52)" by simp
    ultimately have "of_int (2 ^ 52) \<le> y / 2 powi qy" by simp
    then have "2 ^ 52 \<le> roundHalfEven (y / 2 powi qy)" by (rule rhe_ge)
    then have "(of_int (2 ^ 52) :: rat) \<le> of_int (roundHalfEven (y / 2 powi qy))"
      by (simp only: of_int_le_iff)
    then have "of_int (2 ^ 52) * 2 powi qy \<le> rounded y"
      unfolding ry by (intro mult_right_mono) simp_all
    moreover have "of_int (2 ^ 52) * 2 powi qy = (2 :: rat) powi ey"
      using p2_add [of 52 qy] qy52 by simp
    ultimately have B: "2 powi ey \<le> rounded y" by simp
    from A B show ?thesis by simp
  qed
qed

lemma roundPos_mono:
  assumes "0 < x" "x \<le> y"
  shows "jle (roundPos x) (roundPos y)"
  using rounded_mono [OF assms] by (simp add: roundPos_rounded jle_def)

lemma roundPos_nonneg: "0 < x \<Longrightarrow> jle (Num 0) (roundPos x)"
  using rounded_nonneg [of x] by (simp add: roundPos_rounded jle_def)

lemma jle_jneg: "jle a b \<Longrightarrow> jle (jneg b) (jneg a)"
  by (cases a; cases b) (simp_all add: jle_def)

lemma jle_trans: "jle a b \<Longrightarrow> jle b c \<Longrightarrow> jle a c"
  by (cases a; cases b; cases c) (simp_all add: jle_def)

lemma float64_mono:
  assumes "x \<le> y"
  shows "jle (float64 x) (float64 y)"
proof -
  consider "0 < x" | "y < 0" | "x \<le> 0" "0 \<le> y" by linarith
  then show ?thesis
  proof cases
    case 1
    then show ?thesis using assms roundPos_mono [of x y] by (simp add: float64_def)
  next
    case 2
    then have "jle (roundPos (- y)) (roundPos (- x))" using assms by (intro roundPos_mono) simp_all
    then have "jle (jneg (roundPos (- x))) (jneg (roundPos (- y)))" by (rule jle_jneg)
    then show ?thesis using 2 assms by (simp add: float64_def)
  next
    case 3
    have a: "jle (float64 x) (Num 0)"
    proof (cases "x = 0")
      case True
      then show ?thesis by (simp add: jle_def)
    next
      case False
      then have "jle (Num 0) (roundPos (- x))" using 3(1) by (intro roundPos_nonneg) simp
      then have "jle (jneg (roundPos (- x))) (jneg (Num 0))" by (rule jle_jneg)
      then show ?thesis using False 3(1) by (simp add: float64_def)
    qed
    have b: "jle (Num 0) (float64 y)"
    proof (cases "y = 0")
      case True
      then show ?thesis by (simp add: jle_def)
    next
      case False
      then show ?thesis using 3(2) roundPos_nonneg [of y] by (simp add: float64_def)
    qed
    from a b show ?thesis by (rule jle_trans)
  qed
qed

lemma gridUnit_powi: "gridUnit = 2 powi (- 1074)"
  by (simp add: gridUnit_def power_int_minus_divide)

lemma gridUnit_pos: "0 < gridUnit"
  by (simp add: gridUnit_def)

lemma onGrid_iff: "onGrid r \<longleftrightarrow> (\<exists>k :: int. r = of_int k * gridUnit)"
proof
  assume "onGrid r"
  then have "of_int \<lfloor>r / gridUnit\<rfloor> = r / gridUnit" unfolding onGrid_def .
  then have "of_int \<lfloor>r / gridUnit\<rfloor> * gridUnit = r / gridUnit * gridUnit" by (simp only:)
  also have "\<dots> = r" using gridUnit_pos by simp
  finally have "r = of_int \<lfloor>r / gridUnit\<rfloor> * gridUnit" by (rule sym)
  then show "\<exists>k :: int. r = of_int k * gridUnit" ..
next
  assume "\<exists>k :: int. r = of_int k * gridUnit"
  then obtain k :: int where "r = of_int k * gridUnit" ..
  then have "r / gridUnit = of_int k" using gridUnit_pos by simp
  then show "onGrid r" by (simp add: onGrid_def)
qed

lemma onGrid_0 [simp]: "onGrid 0"
  by (simp add: onGrid_def)

lemma onGrid_neg: "onGrid r \<Longrightarrow> onGrid (- r)"
proof -
  assume "onGrid r"
  then obtain k :: int where "r = of_int k * gridUnit" by (auto simp: onGrid_iff)
  then have "- r = of_int (- k) * gridUnit" by simp
  then show ?thesis unfolding onGrid_iff by blast
qed

lemma rounded_grid: "onGrid (rounded x)"
proof -
  define Q where "Q = quantum x"
  have q: "0 \<le> Q + 1074" using quantum_ge [of x] by (simp add: Q_def)
  have "(2 :: rat) powi Q = 2 powi (Q + 1074) * 2 powi (- 1074)"
    using p2_add [of "Q + 1074" "- 1074"] by simp
  also have "\<dots> = of_int (2 ^ nat (Q + 1074)) * gridUnit"
    by (simp only: p2_nat [OF q] gridUnit_powi)
  finally have "rounded x = of_int (roundHalfEven (x / 2 powi Q) * 2 ^ nat (Q + 1074)) * gridUnit"
    by (simp add: rounded_def Q_def)
  then show ?thesis unfolding onGrid_iff by blast
qed

lemma float64_grid: "float64 x = Num y \<Longrightarrow> onGrid y"
  using rounded_grid [of x] onGrid_neg [OF rounded_grid [of "- x"]]
  by (auto simp: float64_def roundPos_rounded split: if_splits)

lemma onGrid_diff:
  assumes "onGrid a" "onGrid b" "a < b"
  shows "gridUnit \<le> b - a"
proof -
  from assms(1,2) obtain k l :: int where a: "a = of_int k * gridUnit" and b: "b = of_int l * gridUnit"
    by (auto simp: onGrid_iff)
  have "of_int k * gridUnit < of_int l * gridUnit" using assms(3) a b by simp
  then have "(of_int k :: rat) < of_int l" using gridUnit_pos by (simp add: mult_less_cancel_right)
  then have "k + 1 \<le> l" by simp
  then have "(of_int (k + 1) :: rat) \<le> of_int l" by (simp only: of_int_le_iff)
  then have "of_int (k + 1) * gridUnit \<le> of_int l * gridUnit"
    using gridUnit_pos by (intro mult_right_mono) simp_all
  then show ?thesis unfolding a b by (simp add: algebra_simps)
qed

lemma float64_gridUnit: "float64 gridUnit = Num gridUnit"
proof (rule float64_exact [of 1 "- 1074"])
  show "\<bar>gridUnit\<bar> < overflowBound" by (simp add: gridUnit_def overflowBound_def)
qed (simp_all add: gridUnit_powi)

lemma float64_pos:
  assumes "gridUnit \<le> x"
  shows "jless (Num 0) (float64 x)"
proof -
  have "jle (Num gridUnit) (float64 x)"
    using float64_mono [OF assms] by (simp add: float64_gridUnit)
  then show ?thesis using gridUnit_pos by (cases "float64 x") (simp_all add: jle_def)
qed

lemma float64_nonpos: "x \<le> 0 \<Longrightarrow> \<not> jless (Num 0) (float64 x)"
  using float64_mono [of x 0] by (cases "float64 x") (simp_all add: jle_def)

lemma float64_sub_sign:
  assumes "onGrid a" "onGrid b"
  shows "jless (Num 0) (float64 (a - b)) \<longleftrightarrow> b < a"
proof (cases "b < a")
  case True
  then have "gridUnit \<le> a - b" using assms by (intro onGrid_diff)
  then show ?thesis using True by (simp add: float64_pos)
next
  case False
  then show ?thesis by (simp add: float64_nonpos)
qed

lemma float64_overflow:
  assumes "overflowBound \<le> x"
  shows "float64 x = PInf"
proof -
  have p: "overflowBound = 2 powi 1024" by (simp add: overflowBound_def)
  have b: "0 < overflowBound" by (simp add: overflowBound_def)
  have "rounded overflowBound = of_int (2 ^ 52) * 2 powi 972"
  proof (rule rounded_eqI [of _ 1024])
    show "overflowBound < 2 powi (1024 + 1)" by (simp add: overflowBound_def)
    have "overflowBound / 2 powi 972 = 2 powi 52"
      unfolding p by (simp only: p2_diff [symmetric]) simp
    then show "\<bar>overflowBound / 2 powi 972 - of_int (2 ^ 52)\<bar> < 1 / 2" by simp
  qed (simp_all add: b p)
  also have "\<dots> = overflowBound" by (simp add: overflowBound_def)
  finally have "float64 overflowBound = PInf" using b by (simp add: float64_def roundPos_rounded)
  then show ?thesis using float64_mono [OF assms] by (cases "float64 x") (simp_all add: jle_def)
qed

lemma float64_numeral: "(numeral k :: int) \<le> 2 ^ 53 \<Longrightarrow> float64 (numeral k) = Num (numeral k)"
  using float64_of_int [of "numeral k"] by simp

lemma float64_1 [simp]: "float64 1 = Num 1"
  using float64_of_int [of 1] by simp

lemma float64_neg_numeral:
  "(numeral k :: int) \<le> 2 ^ 53 \<Longrightarrow> float64 (- numeral k) = Num (- numeral k)"
  using float64_of_int [of "- numeral k"] by simp

lemma float64_half:
  assumes "\<bar>n\<bar> < 2 ^ 53"
  shows "float64 (of_int n / 2) = Num (of_int n / 2)"
proof (rule float64_exact [of n "- 1"])
  have "\<bar>of_int n :: rat\<bar> < 2 ^ 53"
    using assms by (metis of_int_abs of_int_less_iff of_int_numeral of_int_power)
  then have "\<bar>of_int n / 2 :: rat\<bar> < 2 ^ 53" by simp
  then show "\<bar>of_int n / 2 :: rat\<bar> < overflowBound" using overflowBound_gt by linarith
qed (use assms in simp_all)

lemma float64_numeral_half:
  "(numeral k :: int) < 2 ^ 53 \<Longrightarrow> float64 (numeral k / 2) = Num (numeral k / 2)"
  using float64_half [of "numeral k"] by simp

lemma float64_one_half: "float64 (1 / 2) = Num (1 / 2)"
  using float64_half [of 1] by simp

lemma float64_minus_1: "float64 (- 1) = Num (- 1)"
  using float64_of_int [of "- 1"] by simp

lemma jless_PInf [simp]: "\<not> jless PInf y"
  by (cases y) simp_all

lemma jless_NInf [simp]: "\<not> jless y NInf"
  by (cases y) simp_all

lemma float64_between:
  assumes "of_int a \<le> x" "x \<le> of_int b" "\<bar>a\<bar> \<le> 2 ^ 53" "\<bar>b\<bar> \<le> 2 ^ 53"
  shows "\<exists>p. float64 x = Num p \<and> of_int a \<le> p \<and> p \<le> of_int b"
proof -
  have lo: "jle (Num (of_int a)) (float64 x)"
    using float64_mono [OF assms(1)] float64_of_int [OF assms(3)] by simp
  have hi: "jle (float64 x) (Num (of_int b))"
    using float64_mono [OF assms(2)] float64_of_int [OF assms(4)] by simp
  from lo hi show ?thesis by (cases "float64 x") (simp_all add: jle_def)
qed

lemmas float64_values =
  float64_numeral float64_neg_numeral float64_numeral_half float64_one_half float64_minus_1

section \<open>Properties of the CSV reader\<close>

lemma set_trim_subset: "set (trim s) \<subseteq> set s"
proof -
  have "set (trim s) = set (dropWhile isWhiteSpace (rev (dropWhile isWhiteSpace s)))"
    by (simp add: trim_def)
  also have "\<dots> \<subseteq> set (rev (dropWhile isWhiteSpace s))"
    by (rule set_dropWhileD [THEN subsetI]) simp
  also have "\<dots> \<subseteq> set s"
    using set_dropWhileD [of _ isWhiteSpace s] by auto
  finally show ?thesis .
qed

lemma parseCSVLine_loop_no_quote:
  assumes "\<forall>v \<in> set vals. CHR 0x22 \<notin> set v" and "CHR 0x22 \<notin> set current"
  shows "\<forall>v \<in> set (parseCSVLine_loop line vals current inQuotes). CHR 0x22 \<notin> set v"
  using assms
proof (induction line arbitrary: vals current inQuotes)
  case Nil
  then show ?case using set_trim_subset [of current] by auto
next
  case (Cons c rest)
  have t: "CHR 0x22 \<notin> set (trim current)"
    using Cons.prems(2) set_trim_subset [of current] by auto
  show ?case
  proof (cases "c = CHR 0x22")
    case True
    then show ?thesis using Cons.IH [OF Cons.prems] by simp
  next
    case notq: False
    show ?thesis
    proof (cases "c = CHR '','' \<and> \<not> inQuotes")
      case True
      have "\<forall>v \<in> set (vals @ [trim current]). CHR 0x22 \<notin> set v"
        using Cons.prems(1) t by auto
      from Cons.IH [OF this, of "[]" inQuotes] True notq show ?thesis by simp
    next
      case False
      have "CHR 0x22 \<notin> set (current @ [c])"
        using Cons.prems(2) notq by auto
      from Cons.IH [OF Cons.prems(1) this, of inQuotes] False notq show ?thesis by auto
    qed
  qed
qed

text \<open>
  C5 (as the code has it). The claim says that a double quote stays in the parsed field;
  the loop drops it. Amended: a double quote flips the inside-quotes flag and is removed,
  so no field value returned by \<^verbatim>\<open>parseCSVLine\<close> contains a double quote.
\<close>

theorem parseCSVLine_removes_quotes:
  "\<forall>v \<in> set (parseCSVLine line). CHR 0x22 \<notin> set v"
  unfolding parseCSVLine_def by (rule parseCSVLine_loop_no_quote) simp_all

theorem parseCSVLine_removes_quotes_witness:
  "parseCSVLine [CHR 0x22, CHR ''a'', CHR '','', CHR ''b'', CHR 0x22, CHR '','', CHR ''c'']
     = [''a,b'', ''c'']
   \<and> list_all (\<lambda>v. CHR 0x22 \<notin> set v)
        (parseCSVLine
          [CHR 0x22, CHR ''a'', CHR '','', CHR ''b'', CHR 0x22, CHR '','', CHR ''c''])"
  using parseCSVLine_removes_quotes
    [of "[CHR 0x22, CHR ''a'', CHR '','', CHR ''b'', CHR 0x22, CHR '','', CHR ''c'']"]
  by (simp add: parseCSVLine_def trim_def isWhiteSpace_def)

text \<open>
  C5 (as stated) fails: the line of three characters, quote a quote, gives the one field
  \<^verbatim>\<open>a\<close>, in which the two quote characters are gone.
\<close>

theorem parseCSVLine_quotes_counterexample:
  "parseCSVLine [CHR 0x22, CHR ''a'', CHR 0x22] = [''a'']
   \<and> CHR 0x22 \<notin> set (hd (parseCSVLine [CHR 0x22, CHR ''a'', CHR 0x22]))"
  by (simp add: parseCSVLine_def trim_def isWhiteSpace_def)

subsection \<open>Empty input\<close>

lemma split_loop_nonempty: "split_loop sep cur s \<noteq> []"
  by (induction s arbitrary: cur) auto

lemma split_nonempty: "split sep s \<noteq> []"
  by (simp add: split_def split_loop_nonempty)

lemma parseCSVWithHeaders_never_fails: "parseCSVWithHeaders csvContent \<noteq> Inl e"
  using split_nonempty [of "CHR 0x0A" "trim csvContent"]
  by (auto simp: parseCSVWithHeaders_def Let_def split: list.splits)

text \<open>
  C3. The claim holds that an empty or white-space-only text fails with the empty-input
  error. The code tests \<^verbatim>\<open>lines.length === 0\<close>, but \<^verbatim>\<open>split\<close> returns at least one
  line, so the test never fires: on the empty text and on a text of white space only the
  reader returns one empty header and no rows.
\<close>

theorem parseCSVWithHeaders_empty_input:
  "parseCSVWithHeaders [] = Inr \<lparr>headers = [[]], rows = []\<rparr>
   \<and> parseCSVWithHeaders [CHR 0x20, CHR 0x0A, CHR 0x09]
       = Inr \<lparr>headers = [[]], rows = []\<rparr>"
  by (simp add: parseCSVWithHeaders_def trim_def isWhiteSpace_def split_def
      parseCSVLine_def)

section \<open>Properties of the timecode parser\<close>

lemma includes_colon: "includes_str s '':'' \<longleftrightarrow> CHR '':'' \<in> set s"
  by (induction s) auto

lemma takeWhile_Nil_iff: "takeWhile P xs = [] \<longleftrightarrow> (case xs of [] \<Rightarrow> True | x # _ \<Rightarrow> \<not> P x)"
  by (cases xs) auto

lemma parseInt_NaN_iff: "parseInt s = NaN \<longleftrightarrow> \<not> startsInteger s"
  by (auto simp: parseInt_def startsInteger_def Let_def takeWhile_Nil_iff split: list.splits)

lemma parseFloat_NaN_iff: "parseFloat s = NaN \<longleftrightarrow> \<not> startsNumeric s"
proof -
  let ?t = "stripSign (trimStart s)"
  show ?thesis
  proof (cases "take 8 ?t = ''Infinity''")
    case True
    then show ?thesis by (simp add: parseFloat_def startsNumeric_def Let_def)
  next
    case False
    show ?thesis
    proof (cases ?t)
      case Nil
      then show ?thesis using False by (simp add: parseFloat_def startsNumeric_def Let_def)
    next
      case (Cons c cs)
      show ?thesis
      proof (cases "isDigit c")
        case True
        then show ?thesis using False Cons
          by (simp add: parseFloat_def startsNumeric_def Let_def)
      next
        case nd: False
        then show ?thesis using False Cons
          by (cases cs) (auto simp: parseFloat_def startsNumeric_def Let_def takeWhile_Nil_iff)
      qed
    qed
  qed
qed

lemma split_loop_no_sep: "sep \<notin> set s \<Longrightarrow> split_loop sep cur s = [cur @ s]"
  by (induction s arbitrary: cur) auto

lemma split_loop_sep:
  "sep \<notin> set a \<Longrightarrow> split_loop sep cur (a @ sep # rest) = (cur @ a) # split_loop sep [] rest"
  by (induction a arbitrary: cur) auto

lemma split_no_sep: "sep \<notin> set s \<Longrightarrow> split sep s = [s]"
  by (simp add: split_def split_loop_no_sep)

lemma split_four:
  assumes "sep \<notin> set a" "sep \<notin> set b" "sep \<notin> set c" "sep \<notin> set d"
  shows "split sep (a @ sep # b @ sep # c @ sep # d) = [a, b, c, d]"
  using assms by (simp add: split_def split_loop_sep split_loop_no_sep)

text \<open>
  C4 (as the code has it). \<^verbatim>\<open>parseTime\<close> has no failing operation and returns
  \<^verbatim>\<open>null\<close> for a colon-free text exactly when the text does not begin with a decimal
  numeral (or \<^verbatim>\<open>Infinity\<close>), and for a four-part text exactly when some part does not
  begin with an integer numeral. What follows the numeral is ignored.
\<close>

theorem parseTime_fails_iff:
  "(CHR '':'' \<notin> set (trim s) \<longrightarrow>
      (parseTime s frameRate = None \<longleftrightarrow> \<not> startsNumeric (trim s)))
   \<and> (length (split CHR '':'' (trim s)) = 4 \<longrightarrow>
      (parseTime s frameRate = None
         \<longleftrightarrow> \<not> list_all startsInteger (split CHR '':'' (trim s))))"
proof (intro conjI impI)
  assume "CHR '':'' \<notin> set (trim s)"
  then show "parseTime s frameRate = None \<longleftrightarrow> \<not> startsNumeric (trim s)"
    by (simp add: parseTime_def Let_def includes_colon isNaN_def parseFloat_NaN_iff)
next
  assume four: "length (split CHR '':'' (trim s)) = 4"
  then obtain a b c d where parts: "split CHR '':'' (trim s) = [a, b, c, d]"
    by (auto simp: length_Suc_conv eval_nat_numeral)
  have colon: "CHR '':'' \<in> set (trim s)"
  proof (rule ccontr)
    assume "CHR '':'' \<notin> set (trim s)"
    then have "split CHR '':'' (trim s) = [trim s]" by (rule split_no_sep)
    with four show False by simp
  qed
  show "parseTime s frameRate = None
          \<longleftrightarrow> \<not> list_all startsInteger (split CHR '':'' (trim s))"
    using colon parts
    by (simp add: parseTime_def Let_def includes_colon isNaN_def parseInt_NaN_iff)
qed

theorem parseTime_fails_iff_witness:
  "CHR '':'' \<notin> set (trim ''abc'') \<and> parseTime ''abc'' (Num 30) = None
   \<and> \<not> startsNumeric (trim ''abc'')
   \<and> length (split CHR '':'' (trim ''0:0:xx:1'')) = 4
   \<and> parseTime ''0:0:xx:1'' (Num 30) = None
   \<and> \<not> list_all startsInteger (split CHR '':'' (trim ''0:0:xx:1''))"
  using parseTime_fails_iff [of "''abc''" "Num 30"]
    parseTime_fails_iff [of "''0:0:xx:1''" "Num 30"]
  by (simp add: trim_def isWhiteSpace_def split_def startsNumeric_def startsInteger_def
      trimStart_def stripSign_def isSign_def isDigit_def)

text \<open>
  C4 (as stated) fails: the colon-free text \<^verbatim>\<open>12abc\<close> is not a decimal number, and the
  frames part \<^verbatim>\<open>15.5\<close> of \<^verbatim>\<open>0:00:01:15.5\<close> is not an integer, yet both parse.
\<close>

theorem parseTime_lenient_counterexample:
  "parseTime ''12abc'' (Num 30) = Some (Num 12)
   \<and> parseTime ''0:00:01:15.5'' (Num 30) = Some (Num (3 / 2))"
  by (simp add: parseTime_def trim_def isWhiteSpace_def split_def parseInt_def
      parseFloat_def trimStart_def stripSign_def isSign_def isNegative_def isDigit_def
      digitsValue_def digitVal_def exponentPart_def pow10_def isNaN_def float64_values)

lemma digit_not_space: "isDigit c \<Longrightarrow> \<not> isWhiteSpace c"
  by (auto simp: isDigit_def isWhiteSpace_def)

lemma sign_not_space: "isSign c \<Longrightarrow> \<not> isWhiteSpace c"
  by (auto simp: isSign_def isWhiteSpace_def)

lemma digit_not_sign: "isDigit c \<Longrightarrow> \<not> isSign c"
  by (auto simp: isDigit_def isSign_def)

lemma colon_not_digit: "\<not> isDigit CHR '':''"
  by (simp add: isDigit_def)

lemma colon_not_sign: "\<not> isSign CHR '':''"
  by (simp add: isSign_def)

lemma digit_not_x: "isDigit c \<Longrightarrow> c \<noteq> CHR ''x'' \<and> c \<noteq> CHR ''X''"
  by (auto simp: isDigit_def)

lemma trim_id:
  assumes "s \<noteq> []" "\<not> isWhiteSpace (hd s)" "\<not> isWhiteSpace (last s)"
  shows "trim s = s"
proof -
  have a: "dropWhile isWhiteSpace s = s" using assms(1,2) by (cases s) auto
  obtain x xs where rs: "rev s = x # xs" using assms(1) by (cases "rev s") auto
  have "hd (rev s) = last s" using assms(1) by (simp add: hd_rev)
  then have "x = last s" using rs by simp
  then have "dropWhile isWhiteSpace (x # xs) = x # xs" using assms(3) by simp
  then have b: "dropWhile isWhiteSpace (rev s) = rev s" by (simp only: rs)
  show ?thesis by (simp add: trim_def a b)
qed

lemma digitsOf_digits: "digitsOf n \<noteq> [] \<and> list_all isDigit (digitsOf n)"
proof (induction n rule: digitsOf.induct)
  case (1 n)
  show ?case
  proof (cases "n < 10")
    case True
    then show ?thesis by (subst (1 2) digitsOf.simps) (simp add: isDigit_def)
  next
    case False
    have "isDigit (char_of (48 + n mod 10))" by (simp add: isDigit_def)
    with False "1.IH" show ?thesis by (subst (1 2) digitsOf.simps) simp
  qed
qed

lemma digitsValue_zeros: "digitsValue 10 (replicate z CHR ''0'' @ ds) = digitsValue 10 ds"
proof -
  have "foldl (\<lambda>acc c. acc * 10 + digitVal c) 0 (replicate z CHR ''0'') = 0"
    by (induction z) (simp_all add: digitVal_def)
  then show ?thesis by (simp add: digitsValue_def)
qed

lemma digitsValue_snoc:
  "digitsValue 10 (ds @ [c]) = digitsValue 10 ds * 10 + digitVal c"
  by (simp add: digitsValue_def)

lemma digitsValue_digitsOf: "digitsValue 10 (digitsOf n) = n"
proof (induction n rule: digitsOf.induct)
  case (1 n)
  show ?case
  proof (cases "n < 10")
    case True
    then show ?thesis
      by (subst digitsOf.simps) (simp add: digitsValue_def digitVal_def)
  next
    case False
    have "digitVal (char_of (48 + n mod 10)) = n mod 10"
      by (simp add: digitVal_def)
    with False "1.IH" show ?thesis
      by (subst digitsOf.simps) (simp add: digitsValue_snoc)
  qed
qed

lemma intText_digits:
  "replicate z CHR ''0'' @ digitsOf k \<noteq> []
   \<and> list_all isDigit (replicate z CHR ''0'' @ digitsOf k)"
proof -
  have "list_all isDigit (replicate z CHR ''0'')" by (induction z) (simp_all add: isDigit_def)
  then show ?thesis using digitsOf_digits [of k] by simp
qed

lemma intText_shape:
  "intText n z \<noteq> [] \<and> \<not> isWhiteSpace (hd (intText n z)) \<and> isDigit (last (intText n z))
   \<and> CHR '':'' \<notin> set (intText n z)"
proof -
  let ?ds = "replicate z CHR ''0'' @ digitsOf (nat \<bar>n\<bar>)"
  from intText_digits [of z "nat \<bar>n\<bar>"] have ne: "?ds \<noteq> []" and d: "list_all isDigit ?ds"
    by simp_all
  have l: "isDigit (last ?ds)" using ne d last_in_set [of ?ds] by (auto simp: list_all_iff)
  have h: "isDigit (hd ?ds)" using ne d hd_in_set [of ?ds] by (auto simp: list_all_iff)
  have c: "CHR '':'' \<notin> set ?ds" using d colon_not_digit by (auto simp: list_all_iff)
  show ?thesis
  proof (cases "n < 0")
    case True
    then have e: "intText n z = CHR ''-'' # ?ds" by (simp add: intText_def)
    show ?thesis unfolding e using ne l c by (auto simp: isWhiteSpace_def)
  next
    case False
    then have e: "intText n z = ?ds" by (simp add: intText_def)
    show ?thesis unfolding e using ne l c h digit_not_space by blast
  qed
qed

lemma parseInt_digits:
  assumes "ds \<noteq> []" "list_all isDigit ds"
  shows "parseInt ds = float64 (of_nat (digitsValue 10 ds))"
    and "parseInt (CHR ''-'' # ds) = float64 (- of_nat (digitsValue 10 ds))"
proof -
  from assms obtain c cs where ds: "ds = c # cs" and c: "isDigit c"
    and cs: "list_all isDigit cs"
    by (cases ds) auto
  have sp: "\<not> isWhiteSpace c" "\<not> isSign c" using c digit_not_space digit_not_sign by blast+
  have h: "take 2 ds \<noteq> ''0x'' \<and> take 2 ds \<noteq> ''0X''"
    using ds cs digit_not_x by (cases cs) auto
  have w: "takeWhile isDigit ds = ds"
    using assms(2) by (simp add: list_all_iff)
  have neg: "c \<noteq> CHR ''-''" using sp(2) by (auto simp: isSign_def)
  have s1: "stripSign ds = ds" using ds sp(2) by (simp add: stripSign_def)
  have t1: "trimStart ds = ds" using ds sp(1) by (simp add: trimStart_def)
  have n: "\<not> isNegative ds" using ds neg by (simp add: isNegative_def)
  show "parseInt ds = float64 (of_nat (digitsValue 10 ds))"
    using assms(1) h by (simp add: parseInt_def t1 s1 w n Let_def)
  have t2: "trimStart (CHR ''-'' # ds) = CHR ''-'' # ds"
    by (simp add: trimStart_def isWhiteSpace_def)
  have s2: "stripSign (CHR ''-'' # ds) = ds" by (simp add: stripSign_def isSign_def)
  show "parseInt (CHR ''-'' # ds) = float64 (- of_nat (digitsValue 10 ds))"
    using assms(1) h by (simp add: parseInt_def t2 s2 w Let_def isNegative_def)
qed

lemma parseInt_intText: "parseInt (intText n z) = float64 (of_int n)"
proof -
  let ?ds = "replicate z CHR ''0'' @ digitsOf (nat \<bar>n\<bar>)"
  from intText_digits [of z "nat \<bar>n\<bar>"] have ne: "?ds \<noteq> []" and d: "list_all isDigit ?ds"
    by simp_all
  have v: "digitsValue 10 ?ds = nat \<bar>n\<bar>"
    by (simp only: digitsValue_zeros digitsValue_digitsOf)
  show ?thesis
  proof (cases "n < 0")
    case True
    then have e: "intText n z = CHR ''-'' # ?ds" by (simp add: intText_def)
    have "(- of_nat (nat \<bar>n\<bar>) :: rat) = of_int n" using True by simp
    then show ?thesis unfolding e parseInt_digits(2) [OF ne d] v by (simp only:)
  next
    case False
    then have e: "intText n z = ?ds" by (simp add: intText_def)
    have "(of_nat (nat \<bar>n\<bar>) :: rat) = of_int n" using False by simp
    then show ?thesis unfolding e parseInt_digits(1) [OF ne d] v by (simp only:)
  qed
qed

text \<open>
  A NaN time does not need a bad frame rate: an integer part \<open>n\<close> from \<open>2 ^ 1024\<close> on
  (every number of 310 digits is one) is read as \<^verbatim>\<open>Infinity\<close>, and
  \<^verbatim>\<open>Infinity * 60 + -Infinity\<close> is NaN.
\<close>

lemma parseTime_overflow_nan:
  assumes "overflowBound \<le> of_int n"
  shows "parseTime (intText n z @ '':-Infinity'') frameRate = Some NaN"
proof -
  define big where "big = intText n z"
  have sh: "big \<noteq> []" "\<not> isWhiteSpace (hd big)" "CHR '':'' \<notin> set big"
    using intText_shape [of n z] by (simp_all add: big_def)
  have "hd (big @ '':-Infinity'') = hd big" using sh by simp
  then have tr: "trim (big @ '':-Infinity'') = big @ '':-Infinity''"
    using trim_id [of "big @ '':-Infinity''"] sh by (simp add: isWhiteSpace_def)
  have "split_loop CHR '':'' [] (big @ CHR '':'' # ''-Infinity'')
        = ([] @ big) # split_loop CHR '':'' [] ''-Infinity''"
    using sh(3) by (rule split_loop_sep)
  then have sp: "split CHR '':'' (big @ '':-Infinity'') = [big, ''-Infinity'']"
    by (simp add: split_def)
  have inc: "includes_str (big @ '':-Infinity'') '':''" by (simp add: includes_colon)
  have "float64 (of_int n) = PInf" using assms by (rule float64_overflow)
  then have pi: "parseInt big = PInf" by (simp only: big_def parseInt_intText)
  have pf: "parseFloat ''-Infinity'' = NInf"
    by (simp add: parseFloat_def trimStart_def isWhiteSpace_def stripSign_def isSign_def
        isNegative_def)
  have "parseTime (big @ '':-Infinity'') frameRate = Some NaN"
    unfolding parseTime_def tr Let_def
    using inc sp by (simp add: pi pf isNaN_def infOfSign_def)
  then show ?thesis by (simp only: big_def)
qed

text \<open>
  C9. The text of four integers \<open>h\<close>, \<open>m\<close>, \<open>s\<close>, \<open>f\<close> in decimal (a minus sign when
  negative, any number of leading zeros) joined by colons, with a positive frame rate
  \<open>r\<close>, parses to \<^verbatim>\<open>h * 3600 + m * 60 + s + f / r\<close> as the code computes it: the four
  integers as float64 values, and each product, quotient and sum, from left to right,
  rounded to float64.
\<close>

theorem parseTime_four_parts:
  assumes "0 < r"
  shows "parseTime (intText h zh @ '':'' @ intText m zm @ '':'' @ intText s zs @ '':''
                      @ intText f zf) (Num r)
         = Some (jadd (jadd (jadd (jmul (float64 (of_int h)) (Num 3600))
                                  (jmul (float64 (of_int m)) (Num 60)))
                            (float64 (of_int s)))
                      (jdiv (float64 (of_int f)) (Num r)))"
proof -
  let ?t = "intText h zh @ '':'' @ intText m zm @ '':'' @ intText s zs @ '':'' @ intText f zf"
  note sh = intText_shape [of h zh] intText_shape [of m zm] intText_shape [of s zs]
    intText_shape [of f zf]
  have nc: "CHR '':'' \<notin> set (intText h zh)" "CHR '':'' \<notin> set (intText m zm)"
    "CHR '':'' \<notin> set (intText s zs)" "CHR '':'' \<notin> set (intText f zf)"
    using sh by simp_all
  have "hd ?t = hd (intText h zh)" "last ?t = last (intText f zf)" using sh by simp_all
  then have tr: "trim ?t = ?t"
    using trim_id [of ?t] sh digit_not_space [of "last (intText f zf)"] by simp
  have sp: "split CHR '':'' ?t = [intText h zh, intText m zm, intText s zs, intText f zf]"
    using split_four [OF nc] by simp
  have inc: "includes_str ?t '':''" by (simp add: includes_colon)
  show ?thesis
    unfolding parseTime_def tr Let_def
    using inc sp
    by (simp add: parseInt_intText isNaN_def)
qed

theorem parseTime_four_parts_witness:
  "(0 :: rat) < 30
   \<and> parseTime ''00:01:45:15'' (Num 30) = Some (Num (211 / 2))
   \<and> parseTime ''0:00:00:10'' (Num 30)
       = Some (Num (6004799503160661 / 18014398509481984))
   \<and> parseTime ''-1:00:00:00'' (Num 25) = Some (Num (- 3600))"
proof -
  have d: "digitsOf 0 = ''0''" "digitsOf (Suc 0) = ''1''" "digitsOf 45 = ''45''" "digitsOf 15 = ''15''"
    "digitsOf 10 = ''10''"
    by (simp_all add: digitsOf.simps char_of_def bit_Suc_0_iff)
  have t: "float64 (1 / 3) = Num (6004799503160661 / 18014398509481984)"
    using float64_eqI [of "1 / 3" "- 2" "- 54" 6004799503160661]
    by (simp add: overflowBound_def)
  have t': "float64 (6004799503160661 / 18014398509481984)
            = Num (6004799503160661 / 18014398509481984)"
    using float64_exact [of 6004799503160661 "- 54" "6004799503160661 / 18014398509481984"]
    by (simp add: overflowBound_def)
  show ?thesis
    using parseTime_four_parts [of 30 0 1 1 1 45 0 15 0]
      parseTime_four_parts [of 30 0 0 0 1 0 1 10 0]
      parseTime_four_parts [of 25 "- 1" 0 0 1 0 1 0 1]
    by (simp add: intText_def d float64_values t t' numeral_2_eq_2)
qed

section \<open>Properties of the frame-rate detector\<close>

lemma scannedLines_total: "\<exists>ls. scannedLines csvContent = Inr ls"
proof (cases "split CHR 0x0A (trim csvContent)")
  case Nil
  then show ?thesis using split_nonempty [of "CHR 0x0A" "trim csvContent"] by simp
next
  case (Cons first rest)
  then show ?thesis by (simp add: scannedLines_def Let_def)
qed

lemma collectFrames_not_NaN:
  "list_all (\<lambda>f. f \<noteq> NaN) acc \<Longrightarrow> list_all (\<lambda>f. f \<noteq> NaN) (collectFrames ls acc)"
proof (induction ls arbitrary: acc)
  case Nil
  then show ?case by simp
next
  case (Cons l ls)
  show ?case
    using Cons.IH [OF Cons.prems]
      Cons.IH [of "acc @ [parseInt (split CHR '':'' (trim (hd (parseCSVLine (trim l)))) ! 3)]"]
      Cons.prems
    by (auto simp: Let_def isNaN_def split: list.splits)
qed

lemma collectFrames_no_four_part:
  "\<not> list_ex hasFourPartTimecode ls \<Longrightarrow> collectFrames ls acc = acc"
  by (induction ls arbitrary: acc)
     (auto simp: Let_def hasFourPartTimecode_def split: list.splits)

lemma jmax_cases:
  assumes "a \<noteq> NaN" "f \<noteq> NaN"
  shows "jmax a f \<noteq> NaN \<and> jle a (jmax a f) \<and> jle f (jmax a f)
         \<and> (jmax a f = a \<or> jmax a f = f)"
  using assms by (cases a; cases f) (auto simp: jle_def)

lemma foldl_jmax:
  assumes "list_all (\<lambda>f. f \<noteq> NaN) fs" and "a \<noteq> NaN"
  shows "(foldl jmax a fs = a \<or> foldl jmax a fs \<in> set fs)
         \<and> jle a (foldl jmax a fs) \<and> list_all (\<lambda>f. jle f (foldl jmax a fs)) fs"
  using assms
proof (induction fs arbitrary: a)
  case Nil
  then show ?case by (cases a) (simp_all add: jle_def)
next
  case (Cons f fs)
  from Cons.prems have rest: "list_all (\<lambda>f. f \<noteq> NaN) fs" and f: "f \<noteq> NaN" by simp_all
  note m = jmax_cases [OF Cons.prems(2) f]
  from Cons.IH [OF rest, of "jmax a f"] m show ?case
    by (auto intro: jle_trans)
qed

lemma mathMax_is_max:
  assumes "list_all (\<lambda>f. f \<noteq> NaN) fs" and "fs \<noteq> []"
  shows "mathMax fs \<in> set fs \<and> list_all (\<lambda>f. jle f (mathMax fs)) fs"
proof -
  from foldl_jmax [OF assms(1), of NInf]
  have a: "mathMax fs = NInf \<or> mathMax fs \<in> set fs"
    and b: "list_all (\<lambda>f. jle f (mathMax fs)) fs" by (auto simp: mathMax_def)
  have "mathMax fs \<in> set fs"
  proof (cases "mathMax fs = NInf")
    case True
    from assms(2) obtain f where f: "f \<in> set fs" by (cases fs) auto
    with b True have "jle f NInf" by (auto simp: list_all_iff)
    then have "f = NInf" by (cases f) (simp_all add: jle_def)
    with f True show ?thesis by simp
  next
    case False
    with a show ?thesis by simp
  qed
  with b show ?thesis by simp
qed

lemma bucket_cases: "bucket m \<in> {Num 24, Num 25, Num 30, Num 50, Num 60}"
  by (simp add: bucket_def)

text \<open>
  Up to the engine's limit on the arguments of \<^verbatim>\<open>Math.max\<close> the detector returns one of
  24, 25, 30, 50 and 60: 30 when no scanned line has a four-part first field, and
  whenever no frame number was collected; otherwise the bucket of the greatest collected
  frame number.
\<close>

lemma detectFrameRate_within_limit:
  assumes "scannedLines csvContent = Inr ls"
    and "length (collectFrames ls []) \<le> argumentLimit"
  shows "\<exists>r. detectFrameRate argumentLimit csvContent = Inr r
           \<and> r \<in> {Num 24, Num 25, Num 30, Num 50, Num 60}
           \<and> (\<not> list_ex hasFourPartTimecode ls \<longrightarrow> r = Num 30)
           \<and> (collectFrames ls [] = [] \<longrightarrow> r = Num 30)
           \<and> (collectFrames ls [] \<noteq> [] \<longrightarrow>
                (\<exists>m \<in> set (collectFrames ls []).
                   list_all (\<lambda>f. jle f m) (collectFrames ls []) \<and> r = bucket m))"
proof -
  let ?fs = "collectFrames ls []"
  show ?thesis
  proof (cases "?fs = []")
    case True
    then show ?thesis using assms(1) by (simp add: detectFrameRate_def bindE_def)
  next
    case False
    have "list_all (\<lambda>f. f \<noteq> NaN) ?fs" by (rule collectFrames_not_NaN) simp
    from mathMax_is_max [OF this False]
    have m: "mathMax ?fs \<in> set ?fs" "list_all (\<lambda>f. jle f (mathMax ?fs)) ?fs" by simp_all
    have r: "detectFrameRate argumentLimit csvContent = Inr (bucket (mathMax ?fs))"
      using assms False by (simp add: detectFrameRate_def mathMaxSpread_def bindE_def)
    have nf: "list_ex hasFourPartTimecode ls"
      using False collectFrames_no_four_part [of ls "[]"] by auto
    show ?thesis
      using r nf False m bucket_cases [of "mathMax ?fs"] by auto
  qed
qed

lemma split_lines:
  assumes "CHR 0x0A \<notin> set first" "CHR 0x0A \<notin> set row"
  shows "split_loop CHR 0x0A cur (first @ concat (replicate n (CHR 0x0A # row)))
         = (cur @ first) # replicate n row"
  using assms(1)
proof (induction n arbitrary: cur first)
  case 0
  then show ?case by (simp add: split_loop_no_sep)
next
  case (Suc n)
  have "split_loop CHR 0x0A cur (first @ CHR 0x0A # row @ concat (replicate n (CHR 0x0A # row)))
        = (cur @ first) # split_loop CHR 0x0A [] (row @ concat (replicate n (CHR 0x0A # row)))"
    using Suc.prems by (rule split_loop_sep)
  also have "split_loop CHR 0x0A [] (row @ concat (replicate n (CHR 0x0A # row)))
             = ([] @ row) # replicate n row"
    using assms(2) by (rule Suc.IH)
  finally show ?case by simp
qed

lemma last_framesCSV: "\<not> isWhiteSpace (last (framesCSV n))"
proof (cases n)
  case 0
  then show ?thesis by (simp add: framesCSV_def isWhiteSpace_def)
next
  case (Suc k)
  have "replicate (Suc k) (CHR 0x0A # ''00:00:01:12,x'')
        = replicate k (CHR 0x0A # ''00:00:01:12,x'') @ [CHR 0x0A # ''00:00:01:12,x'']"
    by (simp add: replicate_append_same)
  then have "framesCSV n = (''time,name'' @ concat (replicate k (CHR 0x0A # ''00:00:01:12,x''))
               @ [CHR 0x0A] @ ''00:00:01:12,'') @ ''x''"
    unfolding framesCSV_def Suc by (simp only: concat_append) simp
  then have "last (framesCSV n) = CHR ''x''" by (simp only: last_appendR) simp
  then show ?thesis by (simp add: isWhiteSpace_def)
qed

lemma scannedLines_framesCSV:
  "scannedLines (framesCSV n) = Inr (replicate n ''00:00:01:12,x'')"
proof -
  have "framesCSV n \<noteq> []" "\<not> isWhiteSpace (hd (framesCSV n))"
    by (simp_all add: framesCSV_def isWhiteSpace_def)
  then have tr: "trim (framesCSV n) = framesCSV n"
    using last_framesCSV by (rule trim_id)
  have "split CHR 0x0A (framesCSV n) = ([] @ ''time,name'') # replicate n ''00:00:01:12,x''"
    unfolding split_def framesCSV_def by (rule split_lines) simp_all
  then show ?thesis
    by (simp add: scannedLines_def tr toLowerCase_def toLowerChar_def)
qed

lemma collectFrames_replicate:
  "collectFrames (replicate n ''00:00:01:12,x'') acc = acc @ replicate n (Num 12)"
proof (induction n arbitrary: acc)
  case 0
  then show ?case by simp
next
  case (Suc n)
  have s: "collectFrames (''00:00:01:12,x'' # ls) acc = collectFrames ls (acc @ [Num 12])" for ls
    by (simp add: trim_def isWhiteSpace_def parseCSVLine_def split_def parseInt_def
        trimStart_def stripSign_def isSign_def isNegative_def isDigit_def digitsValue_def
        digitVal_def isNaN_def float64_values)
  show ?case
    unfolding replicate_Suc s Suc.IH by (simp add: replicate_append_same)
qed

lemma mathMax_replicate: "0 < n \<Longrightarrow> mathMax (replicate n (Num 12)) = Num 12"
proof -
  have "foldl jmax (Num 12) (replicate k (Num 12)) = Num 12" for k by (induction k) simp_all
  moreover assume "0 < n"
  ultimately show ?thesis by (cases n) (simp_all add: mathMax_def)
qed

text \<open>
  C10. The claim holds that the detector returns one of its five rates for every text. The
  code reaches its maximum by \<^verbatim>\<open>Math.max(...frameNumbers)\<close>, one argument for each frame
  number: for a header line and \<open>n\<close> rows with the timecode \<^verbatim>\<open>00:00:01:12\<close> it returns 24
  as long as the engine accepts \<open>n\<close> arguments, and throws a \<^verbatim>\<open>RangeError\<close> beyond that,
  where the claim has the same 24.
\<close>

theorem detectFrameRate_throws_beyond_limit:
  "detectFrameRate argumentLimit (framesCSV n)
   = (if n = 0 then Inr (Num 30)
      else if argumentLimit < n then Inl RangeError
      else Inr (Num 24))"
  by (simp add: detectFrameRate_def scannedLines_framesCSV collectFrames_replicate
      mathMaxSpread_def mathMax_replicate bucket_def bindE_def)

theorem detectFrameRate_throws_beyond_limit_witness:
  "detectFrameRate 120000 (framesCSV 130000) = Inl RangeError
   \<and> detectFrameRate 120000 (framesCSV 3) = Inr (Num 24)
   \<and> framesCSV 3 = ''time,name'' @ [CHR 0x0A] @ ''00:00:01:12,x'' @ [CHR 0x0A]
        @ ''00:00:01:12,x'' @ [CHR 0x0A] @ ''00:00:01:12,x''"
  using detectFrameRate_throws_beyond_limit [of 120000 130000]
    detectFrameRate_throws_beyond_limit [of 120000 3]
  by (simp add: framesCSV_def numeral_3_eq_3)

section \<open>Properties of the marker extractor\<close>

lemma bindE_Inr_iff [simp]: "bindE m f = Inr y \<longleftrightarrow> (\<exists>x. m = Inr x \<and> f x = Inr y)"
  by (cases m) (simp_all add: bindE_def)

lemma bindE_Inr [simp]: "bindE (Inr x) f = f x"
  by (simp add: bindE_def)

lemma bindE_Inl [simp]: "bindE (Inl e) f = Inl e"
  by (simp add: bindE_def)

lemma jless_irrefl: "\<not> jless a a"
  by (cases a) simp_all

lemma numOnGrid_float64 [simp]: "numOnGrid (float64 x)"
  using float64_grid [of x] by (cases "float64 x") (simp_all add: numOnGrid_def)

lemma numOnGrid_special [simp]: "numOnGrid PInf" "numOnGrid NInf" "numOnGrid NaN"
  by (simp_all add: numOnGrid_def)

lemma numOnGrid_jadd [simp]: "numOnGrid (jadd a b)"
  by (cases a; cases b) simp_all

lemma numOnGrid_parseFloat [simp]: "numOnGrid (parseFloat s)"
  by (simp add: parseFloat_def Let_def)

lemma parseTime_grid: "parseTime s fr = Some t \<Longrightarrow> numOnGrid t"
  by (auto simp: parseTime_def Let_def split: if_splits)

lemma greater_iff:
  assumes "a \<noteq> NaN" "b \<noteq> NaN" "numOnGrid a" "numOnGrid b"
  shows "jless (Num 0) (jsub a b) \<longleftrightarrow> jless b a"
proof (cases a; cases b)
  fix x y
  assume ab: "a = Num x" "b = Num y"
  then have "onGrid x" "onGrid y" using assms(3,4) by (simp_all add: numOnGrid_def)
  then have "jless (Num 0) (float64 (x - y)) \<longleftrightarrow> y < x" by (rule float64_sub_sign)
  then show ?thesis using ab by (simp add: jsub_def)
qed (use assms in \<open>simp_all add: jsub_def\<close>)

lemma greater_same_time: "time x = time y \<Longrightarrow> \<not> jless (Num 0) (compareFn x y)"
  by (cases "time y") (simp_all add: compareFn_def jsub_def)

lemma jle_total: "a \<noteq> NaN \<Longrightarrow> b \<noteq> NaN \<Longrightarrow> \<not> jless b a \<Longrightarrow> jle a b"
  by (simp add: jle_def)

lemma jless_jle: "a \<noteq> NaN \<Longrightarrow> b \<noteq> NaN \<Longrightarrow> jless b a \<Longrightarrow> jle b a"
  by (cases a; cases b) (simp_all add: jle_def)

lemma set_insertMarker: "set (insertMarker x ys) = insert x (set ys)"
  by (induction ys) auto

lemma filter_insertMarker:
  "filter (\<lambda>m. time m = t) (insertMarker x ys)
   = (if time x = t then x # filter (\<lambda>m. time m = t) ys else filter (\<lambda>m. time m = t) ys)"
  by (induction ys) (auto dest: greater_same_time greater_same_time [OF sym])

lemma insertion_stable:
  "filter (\<lambda>m. time m = t) (foldr insertMarker us []) = filter (\<lambda>m. time m = t) us"
  by (induction us) (simp_all add: filter_insertMarker)

lemma set_insertion: "set (foldr insertMarker us []) = set us"
  by (induction us) (simp_all add: set_insertMarker)

lemma sorted_insertMarker:
  assumes "sorted_wrt (\<lambda>a b. jle (time a) (time b)) ys"
    and "orderedTime x" and "\<forall>y \<in> set ys. orderedTime y"
  shows "sorted_wrt (\<lambda>a b. jle (time a) (time b)) (insertMarker x ys)"
  using assms
proof (induction ys)
  case Nil
  then show ?case by simp
next
  case (Cons y ys)
  have nx: "time x \<noteq> NaN" and gx: "numOnGrid (time x)"
    using Cons.prems(2) by (simp_all add: orderedTime_def)
  have ny: "time y \<noteq> NaN" and gy: "numOnGrid (time y)"
    using Cons.prems(3) by (simp_all add: orderedTime_def)
  show ?case
  proof (cases "jless (Num 0) (compareFn x y)")
    case True
    then have yx: "jle (time y) (time x)"
      using greater_iff [OF nx ny gx gy] jless_jle [OF nx ny]
      by (simp add: compareFn_def)
    have "sorted_wrt (\<lambda>a b. jle (time a) (time b)) (insertMarker x ys)"
      using Cons by simp
    with True yx Cons.prems(1) show ?thesis
      by (auto simp: set_insertMarker)
  next
    case False
    then have xy: "jle (time x) (time y)"
      using greater_iff [OF nx ny gx gy] jle_total [OF nx ny]
      by (simp add: compareFn_def)
    with False Cons.prems(1) show ?thesis
      by (auto intro: jle_trans)
  qed
qed

lemma sorted_insertion:
  "\<forall>m \<in> set us. orderedTime m
   \<Longrightarrow> sorted_wrt (\<lambda>a b. jle (time a) (time b)) (foldr insertMarker us [])"
proof (induction us)
  case Nil
  then show ?case by simp
next
  case (Cons u us)
  have "sorted_wrt (\<lambda>a b. jle (time a) (time b)) (insertMarker u (foldr insertMarker us []))"
    using Cons by (intro sorted_insertMarker) (simp_all add: set_insertion)
  then show ?case by simp
qed

lemma markersLoop_grid:
  assumes "markersLoop rs fr tc sel acc = Inr us"
    and "\<forall>m \<in> set acc. numOnGrid (time m)"
  shows "\<forall>m \<in> set us. numOnGrid (time m)"
  using assms
proof (induction rs arbitrary: acc)
  case Nil
  then show ?case by simp
next
  case (Cons r rs)
  show ?case
  proof (cases "rowGet r tc")
    case Undefined
    with Cons show ?thesis by simp
  next
    case Inherited
    with Cons show ?thesis by simp
  next
    case (Str timeStr)
    show ?thesis
    proof (cases "timeStr = []")
      case True
      with Str Cons show ?thesis by simp
    next
      case ne: False
      show ?thesis
      proof (cases "parseTime timeStr fr")
        case None
        with Str ne Cons show ?thesis by simp
      next
        case (Some t)
        then have t: "numOnGrid t" by (rule parseTime_grid)
        from Cons.prems(1) Str ne Some obtain nm where
          loop: "markersLoop rs fr tc sel (acc @ [\<lparr>time = t, name = nm\<rparr>]) = Inr us"
          by (auto simp: Let_def)
        have "\<forall>m \<in> set (acc @ [\<lparr>time = t, name = nm\<rparr>]). numOnGrid (time m)"
          using Cons.prems(2) t by simp
        from Cons.IH [OF loop this] show ?thesis .
      qed
    qed
  qed
qed

text \<open>
  C7 (as the code has it). When no row yields a NaN time, the marker sequence that
  \<^verbatim>\<open>parseCSVWithSelectedFields\<close> returns is non-decreasing in time, and for every time
  \<open>t\<close> its markers at \<open>t\<close> are the markers at \<open>t\<close> of the rows, in row order.
\<close>

theorem markers_sorted_stable:
  assumes "extractMarkers csvContent frameRate timeColumn selectedFields = Inr us"
    and "list_all (\<lambda>m. time m \<noteq> NaN) us"
  shows "\<exists>ms. parseCSVWithSelectedFields engineOrder csvContent frameRate timeColumn
                 selectedFields = Inr ms
              \<and> sorted_wrt (\<lambda>a b. jle (time a) (time b)) ms
              \<and> (\<forall>t. filter (\<lambda>m. time m = t) ms = filter (\<lambda>m. time m = t) us)"
proof -
  have ms: "parseCSVWithSelectedFields engineOrder csvContent frameRate timeColumn
              selectedFields = Inr (foldr insertMarker us [])"
    using assms by (simp add: parseCSVWithSelectedFields_def sortMarkers_def
        consistentComparator_def)
  from assms(1) obtain d :: csvData where
    "markersLoop (rows d) frameRate timeColumn selectedFields [] = Inr us"
    by (auto simp: extractMarkers_def)
  then have "\<forall>m \<in> set us. numOnGrid (time m)"
    using markersLoop_grid by fastforce
  then have "\<forall>m \<in> set us. orderedTime m"
    using assms(2) by (simp add: orderedTime_def list_all_iff)
  then have "sorted_wrt (\<lambda>a b. jle (time a) (time b)) (foldr insertMarker us [])"
    by (rule sorted_insertion)
  then show ?thesis using ms by (simp add: insertion_stable)
qed

theorem markers_sorted_stable_witness:
  "extractMarkers
     (''time,name'' @ [CHR 0x0A] @ ''5,B'' @ [CHR 0x0A] @ ''1,A'' @ [CHR 0x0A] @ ''5,C'')
     (Num 30) ''time'' [''name'']
   = Inr [\<lparr>time = Num 5, name = ''B''\<rparr>, \<lparr>time = Num 1, name = ''A''\<rparr>,
          \<lparr>time = Num 5, name = ''C''\<rparr>]
   \<and> list_all (\<lambda>m. time m \<noteq> NaN)
        [\<lparr>time = Num 5, name = ''B''\<rparr>, \<lparr>time = Num 1, name = ''A''\<rparr>,
         \<lparr>time = Num 5, name = ''C''\<rparr>]
   \<and> parseCSVWithSelectedFields (\<lambda>ms. ms)
     (''time,name'' @ [CHR 0x0A] @ ''5,B'' @ [CHR 0x0A] @ ''1,A'' @ [CHR 0x0A] @ ''5,C'')
     (Num 30) ''time'' [''name'']
   = Inr [\<lparr>time = Num 1, name = ''A''\<rparr>, \<lparr>time = Num 5, name = ''B''\<rparr>,
          \<lparr>time = Num 5, name = ''C''\<rparr>]
   \<and> sorted_wrt (\<lambda>a b. jle (time a) (time b))
        [\<lparr>time = Num 1, name = ''A''\<rparr>, \<lparr>time = Num 5, name = ''B''\<rparr>,
         \<lparr>time = Num 5, name = ''C''\<rparr>]"
proof -
  let ?csv = "''time,name'' @ [CHR 0x0A] @ ''5,B'' @ [CHR 0x0A] @ ''1,A'' @ [CHR 0x0A] @ ''5,C''"
  let ?us = "[\<lparr>time = Num 5, name = ''B''\<rparr>, \<lparr>time = Num 1, name = ''A''\<rparr>,
          \<lparr>time = Num 5, name = ''C''\<rparr>]"
  have ev: "extractMarkers ?csv (Num 30) ''time'' [''name''] = Inr ?us"
    by (simp add: extractMarkers_def parseCSVWithHeaders_def
        trim_def isWhiteSpace_def split_def parseCSVLine_def rowGet_def rowSet_def
        valueAt_def parseTime_def parseFloat_def trimStart_def stripSign_def isSign_def
        isNegative_def isDigit_def digitsValue_def digitVal_def exponentPart_def
        pow10_def isNaN_def float64_values)
  have nn: "list_all (\<lambda>m. time m \<noteq> NaN) ?us" by simp
  have so: "foldr insertMarker ?us []
            = [\<lparr>time = Num 1, name = ''A''\<rparr>, \<lparr>time = Num 5, name = ''B''\<rparr>,
               \<lparr>time = Num 5, name = ''C''\<rparr>]"
    by (simp add: compareFn_def jsub_def float64_values)
  have pc: "parseCSVWithSelectedFields (\<lambda>ms. ms) ?csv (Num 30) ''time'' [''name'']
            = Inr (foldr insertMarker ?us [])"
    using ev by (simp add: parseCSVWithSelectedFields_def sortMarkers_def
        consistentComparator_def del: foldr.simps)
  show ?thesis
    using markers_sorted_stable [OF ev nn, of "\<lambda>ms. ms"] ev nn pc so by simp
qed

text \<open>
  C7 (as stated) fails, for a NaN is not below or equal to any time. With the frame rate
  0 the timecode \<^verbatim>\<open>0:00:00:00\<close> is \<^verbatim>\<open>0 + 0 / 0\<close>, a NaN. Every comparison of the two
  markers is NaN, read as 0, so the sort leaves the rows as they are on every engine.
\<close>

theorem markers_nan_counterexample:
  "parseCSVWithSelectedFields id
     (''time,name'' @ [CHR 0x0A] @ ''0:00:00:00,A'' @ [CHR 0x0A] @ ''0:00:00:00,B'')
     (Num 0) ''time'' [''name'']
   = Inr [\<lparr>time = NaN, name = ''A''\<rparr>, \<lparr>time = NaN, name = ''B''\<rparr>]
   \<and> \<not> sorted_wrt (\<lambda>a b. jle (time a) (time b))
        [\<lparr>time = NaN, name = ''A''\<rparr>, \<lparr>time = NaN, name = ''B''\<rparr>]"
  by (simp add: parseCSVWithSelectedFields_def extractMarkers_def parseCSVWithHeaders_def
      trim_def isWhiteSpace_def split_def parseCSVLine_def rowGet_def rowSet_def
      valueAt_def parseTime_def parseInt_def trimStart_def stripSign_def isSign_def
      isNegative_def isDigit_def digitsValue_def digitVal_def isNaN_def infOfSign_def
      sortMarkers_def consistentComparator_def comparesEqual_def compareFn_def jsub_def
      jle_def)

section \<open>Properties of the buffer operations\<close>

lemma leBytes_1: "leBytes (Suc 0) v = [of_nat v]"
  by simp

lemma leBytes_2: "leBytes 2 v = [of_nat v, of_nat (v div 256)]"
  by (simp add: numeral_2_eq_2)

lemma leBytes_4:
  "leBytes 4 v = [of_nat v, of_nat (v div 256), of_nat (v div 256 div 256),
                  of_nat (v div 256 div 256 div 256)]"
proof -
  have "(4 :: nat) = Suc (Suc (Suc (Suc 0)))" by simp
  then show ?thesis by (simp only: leBytes.simps)
qed

lemma length_leBytes [simp]: "length (leBytes n v) = n"
  by (induction n arbitrary: v) simp_all

lemma leValue_Cons [simp]: "leValue (b # bs) = unat b + 256 * leValue bs"
  by (simp add: leValue_def)

lemma leValue_Nil [simp]: "leValue [] = 0"
  by (simp add: leValue_def)

lemma leValue_leBytes: "v < 256 ^ n \<Longrightarrow> leValue (leBytes n v) = v"
proof (induction n arbitrary: v)
  case 0
  then show ?case by simp
next
  case (Suc n)
  have "v div 256 < 256 ^ n" using Suc.prems by (simp add: less_mult_imp_div_less mult.commute)
  then have "leValue (leBytes n (v div 256)) = v div 256" by (rule Suc.IH)
  moreover have "unat (of_nat v :: 8 word) = v mod 256" by (simp add: unat_of_nat)
  ultimately show ?case by simp
qed

lemma length_writeBytes:
  "offset + length bs \<le> length buf \<Longrightarrow> length (writeBytes buf bs offset) = length buf"
  by (simp add: writeBytes_def)

lemma wrote_writeBytes:
  "offset + length bs \<le> length buf \<Longrightarrow>
   wrote buf (writeBytes buf bs offset) offset (offset + length bs)"
  by (simp add: wrote_def writeBytes_def)

lemma slice_writeBytes:
  "offset + length bs \<le> length buf \<Longrightarrow> slice (writeBytes buf bs offset) offset (length bs) = bs"
  by (simp add: slice_def writeBytes_def)

lemma wrote_refl: "wrote buf buf lo hi"
  by (simp add: wrote_def)

lemma wrote_widen:
  assumes "wrote buf b lo hi" "lo' \<le> lo" "hi \<le> hi'"
  shows "wrote buf b lo' hi'"
proof -
  have "take lo' b = take lo' (take lo b)" using assms(2) by (simp add: min_def)
  also have "\<dots> = take lo' (take lo buf)" using assms(1) by (simp add: wrote_def)
  also have "\<dots> = take lo' buf" using assms(2) by (simp add: min_def)
  finally have t: "take lo' b = take lo' buf" .
  have "drop hi' b = drop (hi' - hi) (drop hi b)" using assms(3) by simp
  also have "\<dots> = drop (hi' - hi) (drop hi buf)" using assms(1) by (simp add: wrote_def)
  also have "\<dots> = drop hi' buf" using assms(3) by simp
  finally have d: "drop hi' b = drop hi' buf" .
  show ?thesis using assms(1) t d by (simp add: wrote_def)
qed

lemma wrote_trans:
  assumes "wrote a b lo hi" "wrote b c lo hi"
  shows "wrote a c lo hi"
  using assms by (simp add: wrote_def)

lemma wrote_slice_below:
  assumes "wrote buf b lo hi" "offset + n \<le> lo"
  shows "slice b offset n = slice buf offset n"
proof -
  have "slice b offset n = take n (drop offset (take lo b))"
    using assms(2) by (simp add: slice_def drop_take min_def)
  also have "\<dots> = take n (drop offset (take lo buf))"
    using assms(1) by (simp add: wrote_def)
  also have "\<dots> = slice buf offset n"
    using assms(2) by (simp add: slice_def drop_take min_def)
  finally show ?thesis .
qed

lemma wrote_slice_above:
  assumes "wrote buf b lo hi" "hi \<le> offset"
  shows "slice b offset n = slice buf offset n"
proof -
  have "drop offset b = drop (offset - hi) (drop hi b)" using assms(2) by simp
  also have "\<dots> = drop (offset - hi) (drop hi buf)" using assms(1) by (simp add: wrote_def)
  also have "\<dots> = drop offset buf" using assms(2) by simp
  finally show ?thesis by (simp add: slice_def)
qed

lemma slice_append1: "offset + n \<le> length a \<Longrightarrow> slice (a @ b) offset n = slice a offset n"
  by (simp add: slice_def)

lemma slice_append2: "length a \<le> offset \<Longrightarrow> slice (a @ b) offset n = slice b (offset - length a) n"
  by (simp add: slice_def)

lemma readUInt32LE_slice:
  assumes "offset + 4 \<le> length buf"
  shows "readUInt32LE buf offset = Inr (leValue (slice buf offset 4))"
proof -
  have d: "\<And>i. i < length buf \<Longrightarrow> drop i buf = buf ! i # drop (Suc i) buf"
    by (simp add: Cons_nth_drop_Suc)
  have e: "offset + 1 = Suc offset" "offset + 2 = Suc (Suc offset)"
    "offset + 3 = Suc (Suc (Suc offset))" by simp_all
  have "drop offset buf = buf ! offset # buf ! Suc offset # buf ! Suc (Suc offset)
          # buf ! Suc (Suc (Suc offset)) # drop (Suc (Suc (Suc (Suc offset)))) buf"
    using assms d [of offset] d [of "Suc offset"] d [of "Suc (Suc offset)"]
      d [of "Suc (Suc (Suc offset))"]
    by simp
  then have "slice buf offset 4
      = [buf ! offset, buf ! Suc offset, buf ! Suc (Suc offset), buf ! Suc (Suc (Suc offset))]"
    by (simp add: slice_def)
  then show ?thesis using assms by (simp add: readUInt32LE_def e)
qed

lemma Buffer_alloc_numOf:
  "Buffer_alloc K (numOf n) = (if n \<le> K then Inr (replicate n 0) else Inl RangeError)"
  by (simp add: Buffer_alloc_def numOf_def)

lemma writeUInt_Num:
  "writeUInt n buf (Num r) offset = Inr b \<longleftrightarrow>
   (0 \<le> r \<and> r \<le> of_nat (256 ^ n - 1) \<and> offset + n \<le> length buf
    \<and> b = writeBytes buf (leBytes n (nat \<lfloor>r\<rfloor>)) offset)"
  by (auto simp: writeUInt_def)

lemma writeUInt_numOf:
  "writeUInt n buf (numOf v) offset =
   (if v < 256 ^ n \<and> offset + n \<le> length buf
    then Inr (writeBytes buf (leBytes n v) offset) else Inl RangeError)"
proof -
  have "(0 :: nat) < 256 ^ n" by simp
  then have "256 ^ n - 1 < v \<longleftrightarrow> \<not> v < (256 :: nat) ^ n" by linarith
  then have "(of_nat (256 ^ n - 1) < (of_nat v :: rat)) \<longleftrightarrow> \<not> v < 256 ^ n"
    by (simp only: of_nat_less_iff)
  then show ?thesis by (auto simp: writeUInt_def numOf_def)
qed

lemma writeUInt_wrote:
  assumes "writeUInt n buf v offset = Inr b"
  shows "wrote buf b offset (offset + n)"
proof -
  have "\<exists>bs. length bs = n \<and> offset + n \<le> length buf \<and> b = writeBytes buf bs offset"
  proof (cases v)
    case (Num r)
    with assms show ?thesis
      by (intro exI [of _ "leBytes n (nat \<lfloor>r\<rfloor>)"])
         (simp add: writeUInt_def split: if_splits)
  next
    case NaN
    with assms show ?thesis
      by (intro exI [of _ "leBytes n 0"]) (simp add: writeUInt_def split: if_splits)
  qed (use assms in \<open>simp_all add: writeUInt_def\<close>)
  then show ?thesis using wrote_writeBytes [of offset _ buf] by auto
qed

lemma length_utf8Fit: "length (utf8Fit n s) \<le> n"
proof (induction s arbitrary: n)
  case Nil
  then show ?case by simp
next
  case (Cons c cs)
  show ?case
  proof (cases "length (utf8Char c) \<le> n")
    case True
    with Cons [of "n - length (utf8Char c)"] show ?thesis by simp
  next
    case False
    then show ?thesis by simp
  qed
qed

lemma Buffer_write_wrote:
  assumes "Buffer_write buf s offset = Inr b"
  shows "wrote buf b offset (length buf)"
proof -
  let ?bs = "utf8Fit (length buf - offset) s"
  from assms have o: "offset \<le> length buf" and b: "b = writeBytes buf ?bs offset"
    by (auto simp: Buffer_write_def split: if_splits)
  have "offset + length ?bs \<le> length buf"
    using o length_utf8Fit [of "length buf - offset" s] by simp
  then have "wrote buf b offset (offset + length ?bs)" "offset + length ?bs \<le> length buf"
    using b wrote_writeBytes [of offset ?bs buf] by simp_all
  then show ?thesis using wrote_widen by blast
qed

lemma Buffer_write_len_wrote:
  assumes "Buffer_write_len buf s offset len = Inr b"
  shows "wrote buf b offset (length buf)"
proof -
  let ?bs = "utf8Fit (min len (length buf - offset)) s"
  from assms have o: "offset \<le> length buf" and b: "b = writeBytes buf ?bs offset"
    by (auto simp: Buffer_write_len_def split: if_splits)
  have "offset + length ?bs \<le> length buf"
    using o length_utf8Fit [of "min len (length buf - offset)" s] by linarith
  then have "wrote buf b offset (offset + length ?bs)" "offset + length ?bs \<le> length buf"
    using b wrote_writeBytes [of offset ?bs buf] by simp_all
  then show ?thesis using wrote_widen by blast
qed

lemma wrote_length: "wrote buf b lo hi \<Longrightarrow> length b = length buf"
  by (simp add: wrote_def)

section \<open>Properties of the chunk builders\<close>

lemma okLen_iff: "okLen m n \<longleftrightarrow> (\<exists>b. m = Inr b \<and> length b = n)"
  by (cases m) (simp_all add: okLen_def)

lemma okLen_bind:
  assumes "okLen m k" and "\<And>b. length b = k \<Longrightarrow> okLen (f b) k"
  shows "okLen (bindE m f) k"
  using assms by (auto simp: okLen_iff)

lemma okLen_alloc: "n \<le> K \<Longrightarrow> okLen (Buffer_alloc K (numOf n)) n"
  by (simp add: Buffer_alloc_numOf okLen_def)

lemma okLen_writeUInt:
  assumes "length buf = L" "0 \<le> r" "r \<le> of_nat (256 ^ n - 1)" "offset + n \<le> L"
  shows "okLen (writeUInt n buf (Num r) offset) L"
proof -
  have "writeUInt n buf (Num r) offset = Inr (writeBytes buf (leBytes n (nat \<lfloor>r\<rfloor>)) offset)"
    using assms by (simp add: writeUInt_Num)
  then show ?thesis using assms(1,4) by (simp add: okLen_def length_writeBytes)
qed

lemma okLen_writeUInt_numOf:
  assumes "length buf = L" "v < 256 ^ n" "offset + n \<le> L"
  shows "okLen (writeUInt n buf (numOf v) offset) L"
  using assms by (simp add: writeUInt_numOf okLen_def length_writeBytes)

lemma okLen_write:
  assumes "length buf = L" "offset \<le> L"
  shows "okLen (Buffer_write buf s offset) L"
proof -
  from assms obtain b where b: "Buffer_write buf s offset = Inr b"
    by (simp add: Buffer_write_def)
  from Buffer_write_wrote [OF b] show ?thesis using b assms(1) by (simp add: okLen_def wrote_def)
qed

lemma okLen_write_len:
  assumes "length buf = L" "offset \<le> L" "len \<le> L"
  shows "okLen (Buffer_write_len buf s offset len) L"
proof -
  from assms obtain b where b: "Buffer_write_len buf s offset len = Inr b"
    by (simp add: Buffer_write_len_def)
  from Buffer_write_len_wrote [OF b] show ?thesis
    using b assms(1) by (simp add: okLen_def wrote_def)
qed

lemma createFmtChunk_ok: "16 \<le> K \<Longrightarrow> okLen (createFmtChunk K 44100 2 16) 16"
  unfolding createFmtChunk_def Let_def writeUInt16LE_def writeUInt32LE_def
  by (intro okLen_bind okLen_alloc okLen_writeUInt) simp_all

lemma createBextChunk_ok: "602 \<le> K \<Longrightarrow> okLen (createBextChunk v K clk) 602"
  unfolding createBextChunk_def Let_def writeUInt16LE_def writeUInt32LE_def
  by (intro okLen_bind okLen_alloc okLen_writeUInt okLen_write_len) simp_all

lemma createChunkHeader_ok:
  "8 \<le> K \<Longrightarrow> sz < 4294967296 \<Longrightarrow> okLen (createChunkHeader K ident sz) 8"
  unfolding createChunkHeader_def writeUInt32LE_def
  by (intro okLen_bind okLen_alloc okLen_writeUInt_numOf okLen_write) simp_all

lemma writeUInt_length: "writeUInt n buf v offset = Inr b \<Longrightarrow> length b = length buf"
  using writeUInt_wrote wrote_length by blast

lemma Buffer_write_length: "Buffer_write buf s offset = Inr b \<Longrightarrow> length b = length buf"
  using Buffer_write_wrote wrote_length by blast

lemma Buffer_write_len_length:
  "Buffer_write_len buf s offset len = Inr b \<Longrightarrow> length b = length buf"
  using Buffer_write_len_wrote wrote_length by blast

lemma Buffer_alloc_length:
  "Buffer_alloc K (numOf n) = Inr b \<Longrightarrow> length b = n"
  by (auto simp: Buffer_alloc_numOf split: if_splits)

lemmas write_lengths =
  writeUInt_length Buffer_write_length Buffer_write_len_length Buffer_alloc_length

lemma createFmtChunk_length:
  "createFmtChunk K sampleRate numChannels bitsPerSample = Inr c \<Longrightarrow> length c = 16"
  unfolding createFmtChunk_def Let_def writeUInt16LE_def writeUInt32LE_def
  by (auto dest!: write_lengths)

lemma createBextChunk_length: "createBextChunk v K clk = Inr c \<Longrightarrow> length c = 602"
  unfolding createBextChunk_def Let_def writeUInt16LE_def writeUInt32LE_def
  by (auto dest!: write_lengths)

lemma createChunkHeader_Inr:
  assumes "createChunkHeader K ident sz = Inr h"
  shows "length h = 8 \<and> sz < 4294967296 \<and> slice h 4 4 = leBytes 4 sz"
proof -
  from assms obtain h0 h1 where h0: "Buffer_alloc K (numOf 8) = Inr h0"
    and h1: "Buffer_write h0 ident 0 = Inr h1"
    and h: "writeUInt 4 h1 (numOf sz) 4 = Inr h"
    by (auto simp: createChunkHeader_def writeUInt32LE_def)
  have l1: "length h1 = 8" using h0 h1 by (auto dest!: write_lengths)
  from h have sz: "sz < 256 ^ 4" and hh: "h = writeBytes h1 (leBytes 4 sz) 4"
    by (auto simp: writeUInt_numOf split: if_splits)
  have "slice h 4 (length (leBytes 4 sz)) = leBytes 4 sz"
    unfolding hh by (rule slice_writeBytes) (simp add: l1)
  then show ?thesis using sz l1 hh by (simp add: length_writeBytes)
qed

subsection \<open>The cue chunk\<close>

lemma writeUInt_frame:
  assumes "writeUInt n buf v offset = Inr b" "lo \<le> offset"
  shows "wrote buf b lo (length buf)"
proof -
  from assms(1) have le: "offset + n \<le> length buf"
    by (cases v) (auto simp: writeUInt_def split: if_splits)
  have w: "wrote buf b offset (offset + n)" by (rule writeUInt_wrote [OF assms(1)])
  show ?thesis by (rule wrote_widen [OF w assms(2) le])
qed

lemma Buffer_write_frame:
  assumes "Buffer_write buf s offset = Inr b" "lo \<le> offset"
  shows "wrote buf b lo (length buf)"
  by (rule wrote_widen [OF Buffer_write_wrote [OF assms(1)] assms(2)]) simp

lemma wrote_chain:
  assumes "wrote a b lo (length a)" "wrote b c lo (length b)"
  shows "wrote a c lo (length a)"
  using assms by (simp add: wrote_def)

lemma cueLoop_frame:
  "cueLoop ms sr index offset chunk = Inr c \<Longrightarrow> wrote chunk c offset (length chunk)"
proof (induction ms arbitrary: index offset chunk)
  case Nil
  then show ?case by (simp add: wrote_refl)
next
  case (Cons m ms)
  from Cons.prems obtain c1 c2 c3 c4 c5 c6 where
    w1: "writeUInt 4 chunk (numOf (index + 1)) offset = Inr c1"
    and w2: "writeUInt 4 c1 (jfloor (jmul (time m) (Num sr))) (offset + 4) = Inr c2"
    and w3: "Buffer_write c2 ''data'' (offset + 8) = Inr c3"
    and w4: "writeUInt 4 c3 (Num 0) (offset + 12) = Inr c4"
    and w5: "writeUInt 4 c4 (Num 0) (offset + 16) = Inr c5"
    and w6: "writeUInt 4 c5 (jfloor (jmul (time m) (Num sr))) (offset + 20) = Inr c6"
    and rest: "cueLoop ms sr (index + 1) (offset + 24) c6 = Inr c"
    by (auto simp: Let_def writeUInt32LE_def)
  have f1: "wrote chunk c1 offset (length chunk)" using w1 by (rule writeUInt_frame) simp
  have f2: "wrote c1 c2 offset (length c1)" using w2 by (rule writeUInt_frame) simp
  have f3: "wrote c2 c3 offset (length c2)" using w3 by (rule Buffer_write_frame) simp
  have f4: "wrote c3 c4 offset (length c3)" using w4 by (rule writeUInt_frame) simp
  have f5: "wrote c4 c5 offset (length c4)" using w5 by (rule writeUInt_frame) simp
  have f6: "wrote c5 c6 offset (length c5)" using w6 by (rule writeUInt_frame) simp
  have "wrote c6 c (offset + 24) (length c6)" using rest by (rule Cons.IH)
  then have f7: "wrote c6 c offset (length c6)"
    by (rule wrote_widen) simp_all
  show ?case
    using f1 f2 f3 f4 f5 f6 f7 by (simp add: wrote_def)
qed

lemma cueLoop_positions:
  assumes "cueLoop ms sr index offset chunk = Inr c" "i < length ms" "time (ms ! i) = Num t"
  shows "\<exists>p. float64 (t * sr) = Num p
              \<and> slice c (offset + 24 * i + 4) 4 = leBytes 4 (nat \<lfloor>p\<rfloor>)
              \<and> 0 \<le> \<lfloor>p\<rfloor> \<and> \<lfloor>p\<rfloor> < 4294967296"
  using assms
proof (induction ms arbitrary: i index offset chunk)
  case Nil
  then show ?case by simp
next
  case (Cons m ms)
  from Cons.prems(1) obtain c1 c2 c3 c4 c5 c6 where
    w1: "writeUInt 4 chunk (numOf (index + 1)) offset = Inr c1"
    and w2: "writeUInt 4 c1 (jfloor (jmul (time m) (Num sr))) (offset + 4) = Inr c2"
    and w3: "Buffer_write c2 ''data'' (offset + 8) = Inr c3"
    and w4: "writeUInt 4 c3 (Num 0) (offset + 12) = Inr c4"
    and w5: "writeUInt 4 c4 (Num 0) (offset + 16) = Inr c5"
    and w6: "writeUInt 4 c5 (jfloor (jmul (time m) (Num sr))) (offset + 20) = Inr c6"
    and rest: "cueLoop ms sr (index + 1) (offset + 24) c6 = Inr c"
    by (auto simp: Let_def writeUInt32LE_def)
  show ?case
  proof (cases i)
    case 0
    then have tm: "time m = Num t" using Cons.prems(3) by simp
    from w2 tm have w2': "writeUInt 4 c1 (jfloor (float64 (t * sr))) (offset + 4) = Inr c2"
      by simp
    then obtain p where fp: "float64 (t * sr) = Num p"
      by (cases "float64 (t * sr)") (simp_all add: writeUInt_def)
    let ?p = "\<lfloor>p\<rfloor>"
    from w2' fp have r: "0 \<le> (of_int ?p :: rat)" "(of_int ?p :: rat) \<le> of_nat (256 ^ 4 - 1)"
      and o: "offset + 4 + 4 \<le> length c1"
      and c2: "c2 = writeBytes c1 (leBytes 4 (nat ?p)) (offset + 4)"
      by (simp_all add: writeUInt_Num)
    have p0: "0 \<le> ?p" using r(1) by simp
    have "(of_int ?p :: rat) \<le> of_int 4294967295" using r(2) by simp
    then have "?p \<le> 4294967295" by (simp only: of_int_le_iff)
    then have p1: "?p < 4294967296" by simp
    have "slice c2 (offset + 4) (length (leBytes 4 (nat ?p))) = leBytes 4 (nat ?p)"
      using o unfolding c2 by (intro slice_writeBytes) simp_all
    then have s2: "slice c2 (offset + 4) 4 = leBytes 4 (nat ?p)" by simp
    have f3: "wrote c2 c3 (offset + 8) (length c2)" using w3 by (rule Buffer_write_frame) simp
    have f4: "wrote c3 c4 (offset + 8) (length c3)" using w4 by (rule writeUInt_frame) simp
    have f5: "wrote c4 c5 (offset + 8) (length c4)" using w5 by (rule writeUInt_frame) simp
    have f6: "wrote c5 c6 (offset + 8) (length c5)" using w6 by (rule writeUInt_frame) simp
    have "wrote c6 c (offset + 24) (length c6)" using rest by (rule cueLoop_frame)
    then have f7: "wrote c6 c (offset + 8) (length c6)" by (rule wrote_widen) simp_all
    have "wrote c2 c (offset + 8) (length c2)"
      using f3 f4 f5 f6 f7 by (simp add: wrote_def)
    then have "slice c (offset + 4) 4 = slice c2 (offset + 4) 4"
      by (rule wrote_slice_below) simp
    with s2 p0 p1 0 fp show ?thesis by simp
  next
    case (Suc j)
    then have "j < length ms" "time (ms ! j) = Num t" using Cons.prems(2,3) by simp_all
    from Cons.IH [OF rest this] Suc show ?thesis by (simp add: algebra_simps)
  qed
qed

lemma createCueChunk_Inr:
  assumes "createCueChunk K ms sr = Inr cue"
  shows "length cue = 4 + 24 * length ms \<and> slice cue 0 4 = leBytes 4 (length ms)
         \<and> length ms < 4294967296"
    and "i < length ms \<Longrightarrow> time (ms ! i) = Num t \<Longrightarrow>
         \<exists>p. float64 (t * sr) = Num p
           \<and> slice cue (8 + 24 * i) 4 = leBytes 4 (nat \<lfloor>p\<rfloor>)
           \<and> 0 \<le> \<lfloor>p\<rfloor> \<and> \<lfloor>p\<rfloor> < 4294967296"
proof -
  from assms obtain c0 c1 where c0: "Buffer_alloc K (numOf (4 + length ms * 24)) = Inr c0"
    and c1: "writeUInt 4 c0 (numOf (length ms)) 0 = Inr c1"
    and loop: "cueLoop ms sr 0 4 c1 = Inr cue"
    by (auto simp: createCueChunk_def Let_def writeUInt32LE_def)
  have l0: "length c0 = 4 + length ms * 24" using c0 by (rule Buffer_alloc_length)
  from c1 have n: "length ms < 256 ^ 4" and c1': "c1 = writeBytes c0 (leBytes 4 (length ms)) 0"
    by (auto simp: writeUInt_numOf split: if_splits)
  have "slice c1 0 (length (leBytes 4 (length ms))) = leBytes 4 (length ms)"
    unfolding c1' by (intro slice_writeBytes) (simp add: l0)
  then have s1: "slice c1 0 4 = leBytes 4 (length ms)" by simp
  have l1: "length c1 = length c0" using c1 by (rule writeUInt_length)
  have fr: "wrote c1 cue 4 (length c1)" using loop by (rule cueLoop_frame)
  then have "slice cue 0 4 = slice c1 0 4" by (rule wrote_slice_below) simp
  then show "length cue = 4 + 24 * length ms \<and> slice cue 0 4 = leBytes 4 (length ms)
         \<and> length ms < 4294967296"
    using s1 n fr l1 l0 by (simp add: wrote_def)
  show "i < length ms \<Longrightarrow> time (ms ! i) = Num t \<Longrightarrow>
         \<exists>p. float64 (t * sr) = Num p
           \<and> slice cue (8 + 24 * i) 4 = leBytes 4 (nat \<lfloor>p\<rfloor>)
           \<and> 0 \<le> \<lfloor>p\<rfloor> \<and> \<lfloor>p\<rfloor> < 4294967296"
    using cueLoop_positions [OF loop, of i t] by (simp add: algebra_simps)
qed

lemma cueLoop_ok:
  assumes "list_all (\<lambda>m. \<exists>t. time m = Num t \<and> 0 \<le> t * sr \<and> t * sr \<le> 4294967295) ms"
    and "length chunk = L" "offset + 24 * length ms \<le> L" "index + length ms < 4294967296"
  shows "okLen (cueLoop ms sr index offset chunk) L"
  using assms
proof (induction ms arbitrary: index offset chunk)
  case Nil
  then show ?case by (simp add: okLen_def)
next
  case (Cons m ms)
  from Cons.prems(1) obtain t where t: "time m = Num t" "0 \<le> t * sr" "t * sr \<le> 4294967295"
    and rest: "list_all (\<lambda>m. \<exists>t. time m = Num t \<and> 0 \<le> t * sr \<and> t * sr \<le> 4294967295) ms"
    by auto
  from float64_between [of 0 "t * sr" 4294967295] t(2,3)
  obtain q where fq: "float64 (t * sr) = Num q" and q: "0 \<le> q" "q \<le> 4294967295"
    by auto
  have p: "0 \<le> (of_int \<lfloor>q\<rfloor> :: rat)" "(of_int \<lfloor>q\<rfloor> :: rat) \<le> of_nat (256 ^ 4 - 1)"
  proof -
    show "0 \<le> (of_int \<lfloor>q\<rfloor> :: rat)" using q(1) by simp
    have "\<lfloor>q\<rfloor> \<le> 4294967295" using q(2) by (simp add: floor_le_iff)
    then have "(of_int \<lfloor>q\<rfloor> :: rat) \<le> of_int 4294967295" by (simp only: of_int_le_iff)
    then show "(of_int \<lfloor>q\<rfloor> :: rat) \<le> of_nat (256 ^ 4 - 1)" by simp
  qed
  have ih: "\<And>c. length c = L \<Longrightarrow> okLen (cueLoop ms sr (index + 1) (offset + 24) c) L"
    using Cons.prems(3,4) by (intro Cons.IH [OF rest]) simp_all
  show ?case
    unfolding cueLoop.simps Let_def writeUInt32LE_def t(1) jmul.simps fq jfloor.simps
    using Cons.prems(2,3,4) p
    by (intro okLen_bind okLen_writeUInt okLen_writeUInt_numOf okLen_write ih) simp_all
qed

lemma createCueChunk_ok:
  assumes "list_all (\<lambda>m. \<exists>t. time m = Num t \<and> 0 \<le> t * sr \<and> t * sr \<le> 4294967295) ms"
    and "4 + 24 * length ms \<le> K" "length ms < 4294967296"
  shows "okLen (createCueChunk K ms sr) (4 + 24 * length ms)"
proof -
  have a: "4 + length ms * 24 = 4 + 24 * length ms" by simp
  show ?thesis
    unfolding createCueChunk_def Let_def writeUInt32LE_def a
    using assms
    by (intro okLen_bind okLen_alloc okLen_writeUInt_numOf cueLoop_ok) simp_all
qed

subsection \<open>The list chunk\<close>

lemma length_utf8Char: "1 \<le> length (utf8Char c)"
  by (simp add: utf8Char_def Let_def)

lemma length_le_byteLength: "length s \<le> byteLength s"
proof (induction s)
  case Nil
  then show ?case by (simp add: byteLength_def utf8_def)
next
  case (Cons c s)
  then show ?case using length_utf8Char [of c] by (simp add: byteLength_def utf8_def)
qed

lemma byteLength_less_padded: "byteLength s < paddedLength s"
  by (simp add: paddedLength_def)

lemma lablSubChunk_ok:
  assumes "12 + paddedLength (name m) \<le> K" "4 + paddedLength (name m) < 4294967296"
    and "index + 1 < 4294967296"
  shows "okLen (lablSubChunk v K m index) (12 + paddedLength (name m))"
proof -
  have a: "8 + 4 + paddedLength (name m) = 12 + paddedLength (name m)"
    by simp
  have b: "byteLength (name m) + 1 + (byteLength (name m) + 1) mod 2 = paddedLength (name m)"
    by (simp add: paddedLength_def)
  have t: "12 + (case v of Desktop \<Rightarrow> length (name m) | Web \<Rightarrow> byteLength (name m)) + 1
           \<le> 12 + paddedLength (name m)"
    using length_le_byteLength [of "name m"] byteLength_less_padded [of "name m"]
    by (cases v) simp_all
  show ?thesis
    unfolding lablSubChunk_def Let_def writeUInt32LE_def writeUInt8_def b a
    using assms t
    by (intro okLen_bind okLen_alloc okLen_writeUInt_numOf okLen_write okLen_writeUInt)
       simp_all
qed

lemma lablSubChunk_length:
  assumes "lablSubChunk v K m index = Inr sub"
  shows "length sub = 12 + paddedLength (name m)"
proof -
  from assms obtain s0 where "Buffer_alloc K (numOf (12 + paddedLength (name m))) = Inr s0"
    and "length sub = length s0"
    unfolding lablSubChunk_def Let_def writeUInt32LE_def writeUInt8_def
    by (auto simp: paddedLength_def dest!: writeUInt_length Buffer_write_length)
  then show ?thesis by (auto dest: Buffer_alloc_length)
qed

lemma lablLoop_length:
  "lablLoop v K ms index acc = Inr subs
   \<Longrightarrow> length (concat subs) = length (concat acc) + lablSize ms"
proof (induction ms arbitrary: index acc)
  case Nil
  then show ?case by (simp add: lablSize_def)
next
  case (Cons m ms)
  from Cons.prems obtain sub where sub: "lablSubChunk v K m index = Inr sub"
    and rest: "lablLoop v K ms (index + 1) (acc @ [sub]) = Inr subs"
    by auto
  from Cons.IH [OF rest] lablSubChunk_length [OF sub] show ?case
    by (simp add: lablSize_def)
qed

lemma createListChunk_length:
  assumes "createListChunk v K ms = Inr lst"
  shows "length lst = 4 + lablSize ms"
proof -
  from assms obtain subs l0 l1 where subs: "lablLoop v K ms 0 [] = Inr subs"
    and l0: "Buffer_alloc K (numOf (4 + length (concat subs))) = Inr l0"
    and l1: "Buffer_write l0 ''adtl'' 0 = Inr l1"
    and lst: "lst = Buffer_copy (concat subs) l1 4"
    by (auto simp: createListChunk_def Buffer_concat_def split: if_splits)
  have n: "length l1 = 4 + length (concat subs)"
    using l0 l1 by (auto dest!: Buffer_alloc_length Buffer_write_length)
  have "length lst = length l1"
    unfolding lst Buffer_copy_def using n by (intro length_writeBytes) simp
  with n lablLoop_length [OF subs] show ?thesis by simp
qed

lemma lablLoop_ok:
  assumes "list_all (\<lambda>m. 12 + paddedLength (name m) \<le> K
                        \<and> 4 + paddedLength (name m) < 4294967296) ms"
    and "index + length ms < 4294967296"
  shows "\<exists>subs. lablLoop v K ms index acc = Inr subs"
  using assms
proof (induction ms arbitrary: index acc)
  case Nil
  then show ?case by simp
next
  case (Cons m ms)
  have "okLen (lablSubChunk v K m index) (12 + paddedLength (name m))"
    using Cons.prems by (intro lablSubChunk_ok) simp_all
  then obtain sub where sub: "lablSubChunk v K m index = Inr sub"
    by (auto simp: okLen_iff)
  have "\<exists>subs. lablLoop v K ms (index + 1) (acc @ [sub]) = Inr subs"
    using Cons.prems by (intro Cons.IH) simp_all
  with sub show ?case by simp
qed

lemma createListChunk_ok:
  assumes "list_all (\<lambda>m. 12 + paddedLength (name m) \<le> K
                        \<and> 4 + paddedLength (name m) < 4294967296) ms"
    and "length ms < 4294967296" "4 + lablSize ms \<le> K"
  shows "okLen (createListChunk v K ms) (4 + lablSize ms)"
proof -
  from lablLoop_ok [OF assms(1), of 0 v "[]"] assms(2)
  obtain subs where subs: "lablLoop v K ms 0 [] = Inr subs" by auto
  have n: "length (concat subs) = lablSize ms" using lablLoop_length [OF subs] by simp
  have c: "Buffer_concat K subs = Inr (concat subs)"
    using n assms(3) by (simp add: Buffer_concat_def)
  have "okLen (Buffer_alloc K (numOf (4 + length (concat subs)))) (4 + lablSize ms)"
    using assms(3) n by (simp add: okLen_alloc)
  then obtain l0 where l0: "Buffer_alloc K (numOf (4 + length (concat subs))) = Inr l0"
    and n0: "length l0 = 4 + lablSize ms" by (auto simp: okLen_iff)
  have "okLen (Buffer_write l0 ''adtl'' 0) (4 + lablSize ms)"
    using n0 by (intro okLen_write) simp_all
  then obtain l1 where l1: "Buffer_write l0 ''adtl'' 0 = Inr l1"
    and n1: "length l1 = 4 + lablSize ms" by (auto simp: okLen_iff)
  have r: "createListChunk v K ms = Inr (Buffer_copy (concat subs) l1 4)"
    using subs c l0 l1 by (simp add: createListChunk_def)
  from createListChunk_length [OF r] r show ?thesis by (simp add: okLen_def)
qed

subsection \<open>The data chunk and the layout of the file\<close>

lemma wavDuration_Num:
  assumes "wavDuration ms = Num d"
  shows "(ms = [] \<and> d = 10)
         \<or> (ms \<noteq> [] \<and> (\<exists>t. time (last ms) = Num t \<and> float64 (of_int (\<lceil>t\<rceil> + 1)) = Num d))"
proof (cases "ms = []")
  case True
  with assms show ?thesis by (simp add: wavDuration_def)
next
  case False
  with assms show ?thesis
    by (cases "time (last ms)") (simp_all add: wavDuration_def)
qed

lemma createDataChunk_Inr:
  assumes "createDataChunk K numSamples 2 2 = Inr dat"
  shows "\<exists>x. jmul (jmul numSamples (Num 2)) (Num 2) = Num x \<and> 0 \<le> x \<and> x \<le> of_nat K
              \<and> dat = replicate (nat \<lfloor>x\<rfloor>) 0"
  using assms
  by (cases "jmul (jmul numSamples (Num 2)) (Num 2)")
     (auto simp: createDataChunk_def Buffer_alloc_def split: if_splits)

lemma riffHeader_Inr:
  assumes "Buffer_alloc K (numOf 12) = Inr r0" "Buffer_write r0 ''RIFF'' 0 = Inr r1"
    and "writeUInt32LE r1 (numOf fileSize) 4 = Inr r2" "Buffer_write r2 ''WAVE'' 8 = Inr riff"
  shows "length riff = 12 \<and> fileSize < 4294967296 \<and> slice riff 4 4 = leBytes 4 fileSize"
proof -
  have l1: "length r1 = 12" using assms(1,2) by (auto dest!: write_lengths)
  from assms(3) have sz: "fileSize < 256 ^ 4" and r2: "r2 = writeBytes r1 (leBytes 4 fileSize) 4"
    by (auto simp: writeUInt32LE_def writeUInt_numOf split: if_splits)
  have "slice r2 4 (length (leBytes 4 fileSize)) = leBytes 4 fileSize"
    unfolding r2 by (rule slice_writeBytes) (simp add: l1)
  then have s2: "slice r2 4 4 = leBytes 4 fileSize" by simp
  have l2: "length r2 = 12" using r2 l1 by (simp add: length_writeBytes)
  have w: "wrote r2 riff 8 (length r2)" using assms(4) by (rule Buffer_write_frame) simp
  have "slice riff 4 4 = slice r2 4 4" using w by (rule wrote_slice_below) simp
  moreover have "length riff = length r2" using w by (simp add: wrote_def)
  ultimately show ?thesis using s2 l2 sz by simp
qed

lemma generate_layout:
  assumes "generateWavWithMarkers v K clk ms = Inr out"
  shows "\<exists>riff h1 fmt h2 bext h3 dat h4 cue h5 lst.
          out = riff @ h1 @ fmt @ h2 @ bext @ h3 @ dat @ h4 @ cue @ h5 @ lst
          \<and> createFmtChunk K 44100 2 16 = Inr fmt
          \<and> createBextChunk v K clk = Inr bext
          \<and> createDataChunk K (jmul (wavDuration ms) (Num 44100)) 2 2 = Inr dat
          \<and> createCueChunk K ms 44100 = Inr cue
          \<and> createListChunk v K ms = Inr lst
          \<and> length riff = 12
          \<and> slice riff 4 4 = leBytes 4 (4 + 8 + length fmt + 8 + length bext + 8 + length dat
                                          + 8 + length cue + 8 + length lst)
          \<and> 4 + 8 + length fmt + 8 + length bext + 8 + length dat
              + 8 + length cue + 8 + length lst < 4294967296
          \<and> createChunkHeader K ''fmt '' (length fmt) = Inr h1
          \<and> createChunkHeader K ''bext'' (length bext) = Inr h2
          \<and> createChunkHeader K ''data'' (length dat) = Inr h3
          \<and> createChunkHeader K ''cue '' (length cue) = Inr h4
          \<and> createChunkHeader K ''LIST'' (length lst) = Inr h5"
proof -
  from assms obtain fmt bext cue lst dat r0 r1 r2 riff h1 h2 h3 h4 h5 where
    c: "createFmtChunk K 44100 2 16 = Inr fmt" "createBextChunk v K clk = Inr bext"
      "createCueChunk K ms 44100 = Inr cue" "createListChunk v K ms = Inr lst"
      "createDataChunk K (jmul (wavDuration ms) (Num 44100)) 2 2 = Inr dat"
    and r: "Buffer_alloc K (numOf 12) = Inr r0" "Buffer_write r0 ''RIFF'' 0 = Inr r1"
      "writeUInt32LE r1 (numOf (4 + 8 + length fmt + 8 + length bext + 8 + length dat
          + 8 + length cue + 8 + length lst)) 4 = Inr r2"
      "Buffer_write r2 ''WAVE'' 8 = Inr riff"
    and h: "createChunkHeader K ''fmt '' (length fmt) = Inr h1"
      "createChunkHeader K ''bext'' (length bext) = Inr h2"
      "createChunkHeader K ''data'' (length dat) = Inr h3"
      "createChunkHeader K ''cue '' (length cue) = Inr h4"
      "createChunkHeader K ''LIST'' (length lst) = Inr h5"
    and out: "Buffer_concat K [riff, h1, fmt, h2, bext, h3, dat, h4, cue, h5, lst] = Inr out"
    unfolding generateWavWithMarkers_def Let_def by (simp, blast)
  from out have o: "out = riff @ h1 @ fmt @ h2 @ bext @ h3 @ dat @ h4 @ cue @ h5 @ lst"
    by (simp add: Buffer_concat_def split: if_splits)
  from riffHeader_Inr [OF r] c h o show ?thesis by blast
qed

section \<open>Properties of the encoder\<close>

lemma read_mid:
  assumes "out = a @ b @ c" "length a = off0" "offset + 4 \<le> length b"
    and "slice b offset 4 = leBytes 4 v" "v < 4294967296"
  shows "readUInt32LE out (off0 + offset) = Inr v"
proof -
  have "slice out (off0 + offset) 4 = slice (b @ c) offset 4"
    unfolding assms(1) using assms(2) by (simp add: slice_append2)
  also have "\<dots> = slice b offset 4" using assms(3) by (simp add: slice_append1)
  finally have s: "slice out (off0 + offset) 4 = leBytes 4 v" using assms(4) by simp
  have "off0 + offset + 4 \<le> length out" using assms(1,2,3) by simp
  then have "readUInt32LE out (off0 + offset) = Inr (leValue (slice out (off0 + offset) 4))"
    by (rule readUInt32LE_slice)
  then show ?thesis using s assms(5) by (simp add: leValue_leBytes)
qed

lemma slice_mid:
  assumes "out = a @ b @ c" "length a = off0" "n = length b"
  shows "slice out off0 n = b"
  using assms by (simp add: slice_def)

lemma okLen_bind_len:
  assumes "okLen m n" and "\<And>b. length b = n \<Longrightarrow> okLen (f b) k"
  shows "okLen (bindE m f) k"
  using assms by (auto simp: okLen_iff)

lemma member_lablSize: "m \<in> set ms \<Longrightarrow> 12 + paddedLength (name m) \<le> lablSize ms"
  unfolding lablSize_def by (induction ms) auto

lemma wavDuration_seconds:
  assumes "list_all (\<lambda>m. \<exists>t. time m = Num t \<and> 0 \<le> t \<and> t * 44100 \<le> 4294967295) ms"
  shows "wavDuration ms = Num (of_nat (wavSeconds ms))"
proof (cases "ms = []")
  case True
  then show ?thesis by (simp add: wavDuration_def wavSeconds_def)
next
  case False
  then have "last ms \<in> set ms" by simp
  with assms obtain t where t: "time (last ms) = Num t" "0 \<le> t" "t * 44100 \<le> 4294967295"
    by (auto simp: list_all_iff)
  have c0: "0 \<le> \<lceil>t\<rceil>" using t(2) by (simp add: ceiling_le_iff le_ceiling_iff)
  have "t \<le> 97392" using t(3) by simp
  then have "\<lceil>t\<rceil> \<le> 97392" by (simp add: ceiling_le_iff)
  with c0 have "\<bar>\<lceil>t\<rceil> + 1\<bar> \<le> 2 ^ 53" by simp
  then have f: "float64 (of_int (\<lceil>t\<rceil> + 1)) = Num (of_int (\<lceil>t\<rceil> + 1))"
    by (rule float64_of_int)
  have "wavDuration ms = float64 (of_int (\<lceil>t\<rceil> + 1))"
    using False t(1) by (simp add: wavDuration_def)
  then have d: "wavDuration ms = Num (of_int (\<lceil>t\<rceil> + 1))" using f by simp
  have a: "(of_int (\<lceil>t\<rceil> + 1) :: rat) = of_nat (nat (\<lceil>t\<rceil> + 1))" using c0 by simp
  have b: "wavSeconds ms = nat (\<lceil>t\<rceil> + 1)"
    unfolding wavSeconds_def d by simp
  show ?thesis by (simp only: d a b)
qed

lemma createDataChunk_ok:
  assumes "wavDuration ms = Num (of_nat secs)" "secs * 176400 \<le> K"
    and "secs * 176400 \<le> 2 ^ 53"
  shows "okLen (createDataChunk K (jmul (wavDuration ms) (Num 44100)) 2 2) (secs * 176400)"
proof -
  have b: "secs * 44100 \<le> 2 ^ 53" "secs * 88200 \<le> 2 ^ 53" using assms(3) by simp_all
  have e: "(of_nat secs :: rat) * 44100 = of_nat (secs * 44100)"
    "(of_nat (secs * 44100) :: rat) * 2 = of_nat (secs * 88200)"
    "(of_nat (secs * 88200) :: rat) * 2 = of_nat (secs * 176400)"
    by simp_all
  have "jmul (jmul (jmul (Num (of_nat secs)) (Num 44100)) (Num 2)) (Num 2)
        = Num (of_nat (secs * 176400))"
    unfolding jmul.simps e(1) float64_of_nat [OF b(1)] e(2) float64_of_nat [OF b(2)] e(3)
    by (rule float64_of_nat [OF assms(3)])
  then show ?thesis
    unfolding createDataChunk_def Let_def assms(1)
    using assms(2) okLen_alloc [of "secs * 176400" K] by (simp add: numOf_def)
qed

lemma jmul_mono:
  assumes "jle a b" "0 < k"
  shows "jle (jmul a (Num k)) (jmul b (Num k))"
proof (cases a; cases b)
  fix x y
  assume ab: "a = Num x" "b = Num y"
  then have "x * k \<le> y * k" using assms by (simp add: jle_def)
  then show ?thesis using ab float64_mono by simp
qed (use assms in \<open>simp_all add: jle_def infOfSign_def\<close>)

lemma dataSize_mono:
  assumes "jle a b"
  shows "jle (jmul (jmul (jmul a (Num 44100)) (Num 2)) (Num 2))
             (jmul (jmul (jmul b (Num 44100)) (Num 2)) (Num 2))"
  using assms by (intro jmul_mono) simp_all

lemma dataSize_int:
  assumes "\<bar>c\<bar> \<le> 24348"
  shows "jmul (jmul (jmul (float64 (of_int c)) (Num 44100)) (Num 2)) (Num 2)
         = Num (of_int c * 176400)"
proof -
  have b: "\<bar>c\<bar> \<le> 2 ^ 53" "\<bar>c * 44100\<bar> \<le> 2 ^ 53" "\<bar>c * 88200\<bar> \<le> 2 ^ 53"
    "\<bar>c * 176400\<bar> \<le> 2 ^ 53"
    using assms by (simp_all add: abs_mult)
  from float64_of_int [OF b(1)] float64_of_int [OF b(2)] float64_of_int [OF b(3)]
    float64_of_int [OF b(4)]
  show ?thesis by (simp add: mult.commute)
qed

lemma dataSize_exact:
  assumes "jmul (jmul (jmul (float64 (of_int c)) (Num 44100)) (Num 2)) (Num 2) = Num x"
    and "0 \<le> x" "x < 4294967296"
  shows "0 \<le> c \<and> float64 (of_int c) = Num (of_int c) \<and> x = of_int c * 176400"
proof -
  have lo: "0 \<le> c"
  proof (rule ccontr)
    assume "\<not> 0 \<le> c"
    then have "c \<le> - 1" by simp
    then have "(of_int c :: rat) \<le> of_int (- 1)" by (simp only: of_int_le_iff)
    then have "jle (float64 (of_int c)) (float64 (of_int (- 1)))" by (rule float64_mono)
    from dataSize_mono [OF this] have "jle (Num x) (Num (- 176400))"
      unfolding assms(1) using dataSize_int [of "- 1"] by simp
    then show False using assms(2) by (simp add: jle_def)
  qed
  have hi: "c \<le> 24347"
  proof (rule ccontr)
    assume "\<not> c \<le> 24347"
    then have "24348 \<le> c" by simp
    then have "(of_int 24348 :: rat) \<le> of_int c" by (simp only: of_int_le_iff)
    then have "jle (float64 (of_int 24348)) (float64 (of_int c))" by (rule float64_mono)
    from dataSize_mono [OF this] have "jle (Num 4294987200) (Num x)"
      unfolding assms(1) using dataSize_int [of 24348] by simp
    then show False using assms(3) by (simp add: jle_def)
  qed
  have a: "\<bar>c\<bar> \<le> 24348" "\<bar>c\<bar> \<le> 2 ^ 53" using lo hi by simp_all
  from dataSize_int [OF a(1)] assms(1) have "x = of_int c * 176400" by simp
  with lo float64_of_int [OF a(2)] show ?thesis by simp
qed

lemma wavDuration_int:
  assumes "jmul (jmul (jmul (wavDuration ms) (Num 44100)) (Num 2)) (Num 2) = Num x"
  shows "\<exists>c. wavDuration ms = float64 (of_int c) \<and> (ms = [] \<longrightarrow> c = 10)
              \<and> (ms \<noteq> [] \<longrightarrow> (\<exists>t. time (last ms) = Num t \<and> c = \<lceil>t\<rceil> + 1))"
proof (cases "ms = []")
  case True
  have "float64 (of_int 10) = Num (of_int 10)" by (rule float64_of_int) simp
  then have "wavDuration ms = float64 (of_int 10)" using True by (simp add: wavDuration_def)
  with True show ?thesis by blast
next
  case False
  show ?thesis
  proof (cases "time (last ms)")
    case (Num t)
    then have "wavDuration ms = float64 (of_int (\<lceil>t\<rceil> + 1))"
      using False by (simp add: wavDuration_def)
    with False Num show ?thesis by blast
  qed (use assms False in \<open>simp_all add: wavDuration_def infOfSign_def\<close>)
qed

lemma data_chunk_seconds:
  assumes "createDataChunk K (jmul (wavDuration ms) (Num 44100)) 2 2 = Inr dat"
    and "length dat < 4294967296"
  shows "\<exists>secs. wavDuration ms = Num (of_nat secs) \<and> dat = replicate (secs * 176400) 0
           \<and> (ms = [] \<longrightarrow> secs = 10)
           \<and> (ms \<noteq> [] \<longrightarrow> (\<exists>t. time (last ms) = Num t \<and> int secs = \<lceil>t\<rceil> + 1))"
proof -
  from createDataChunk_Inr [OF assms(1)] obtain x where
    x: "jmul (jmul (jmul (wavDuration ms) (Num 44100)) (Num 2)) (Num 2) = Num x" "0 \<le> x"
    and dat: "dat = replicate (nat \<lfloor>x\<rfloor>) 0"
    by blast
  have "nat \<lfloor>x\<rfloor> < 4294967296" using assms(2) dat by simp
  then have "\<lfloor>x\<rfloor> < (4294967296 :: int)" by linarith
  then have "x < of_int 4294967296" by (simp only: floor_less_iff)
  then have xl: "x < 4294967296" by simp
  from wavDuration_int [OF x(1)] obtain c where
    c: "wavDuration ms = float64 (of_int c)" "ms = [] \<longrightarrow> c = 10"
      "ms \<noteq> [] \<longrightarrow> (\<exists>t. time (last ms) = Num t \<and> c = \<lceil>t\<rceil> + 1)"
    by blast
  from dataSize_exact [OF x(1) [unfolded c(1)] x(2) xl]
  have e: "0 \<le> c" "float64 (of_int c) = Num (of_int c)" "x = of_int c * 176400" by simp_all
  define secs where "secs = nat c"
  have cs: "c = int secs" using e(1) by (simp add: secs_def)
  have d: "wavDuration ms = Num (of_nat secs)" using c(1) e(2) by (simp add: cs)
  have "x = of_nat (secs * 176400)" using e(3) by (simp add: cs)
  then have "nat \<lfloor>x\<rfloor> = secs * 176400" by (simp only: floor_of_nat nat_int)
  then have dz: "dat = replicate (secs * 176400) 0" using dat by simp
  have s0: "ms = [] \<longrightarrow> secs = 10" using c(2) cs by auto
  have s1: "ms \<noteq> [] \<longrightarrow> (\<exists>t. time (last ms) = Num t \<and> int secs = \<lceil>t\<rceil> + 1)"
    using c(3) cs by auto
  from d dz s0 s1 show ?thesis by blast
qed

lemma generate_ok:
  assumes "list_all (\<lambda>m. \<exists>t. time m = Num t \<and> 0 \<le> t \<and> t * 44100 \<le> 4294967295) ms"
    and "wavSize ms \<le> K" "wavSize ms < 4294967296"
  shows "okLen (generateWavWithMarkers v K clk ms) (wavSize ms)"
proof -
  have e: "(16 :: rat) / 8 = 2" by simp
  have k: "16 \<le> K" "602 \<le> K" "8 \<le> K" "12 \<le> K" "4 + 24 * length ms \<le> K"
    "4 + lablSize ms \<le> K" "wavSeconds ms * 176400 \<le> K"
    using assms(2) by (simp_all add: wavSize_def)
  have n: "length ms < 4294967296" "wavSeconds ms * 176400 < 4294967296"
    "4 + 24 * length ms < 4294967296" "4 + lablSize ms < 4294967296"
    using assms(3) by (simp_all add: wavSize_def)
  have cue: "list_all (\<lambda>m. \<exists>t. time m = Num t \<and> 0 \<le> t * 44100 \<and> t * 44100 \<le> 4294967295) ms"
    using assms(1) by (auto simp: list_all_iff)
  have lab: "list_all (\<lambda>m. 12 + paddedLength (name m) \<le> K
                             \<and> 4 + paddedLength (name m) < 4294967296) ms"
    using member_lablSize [of _ ms] k(6) n(4) by (fastforce simp: list_all_iff)
  have dur: "wavDuration ms = Num (of_nat (wavSeconds ms))"
    using assms(1) by (rule wavDuration_seconds)
  have big: "wavSeconds ms * 176400 \<le> 2 ^ 53" using n(2) by simp
  have total: "wavSize ms = 12 + 8 + 16 + 8 + 602 + 8 + wavSeconds ms * 176400 + 8
                 + (4 + 24 * length ms) + 8 + (4 + lablSize ms)"
    by (simp add: wavSize_def)
  show ?thesis
    unfolding generateWavWithMarkers_def Let_def e writeUInt32LE_def
    apply (rule okLen_bind_len [OF createFmtChunk_ok [OF k(1)]])
    apply (rule okLen_bind_len [OF createBextChunk_ok [OF k(2)]])
    apply (rule okLen_bind_len [OF createCueChunk_ok [OF cue k(5) n(1)]])
    apply (rule okLen_bind_len [OF createListChunk_ok [OF lab n(1) k(6)]])
    apply (rule okLen_bind_len [OF createDataChunk_ok [OF dur k(7) big]])
    apply (rule okLen_bind_len [OF okLen_alloc [OF k(4)]])
    apply (rule okLen_bind_len [where n = 12], rule okLen_write, simp, simp)
    apply (rule okLen_bind_len [where n = 12], rule okLen_writeUInt_numOf, simp)
    subgoal using assms(3) by (simp add: total)
     apply simp
    apply (rule okLen_bind_len [where n = 12], rule okLen_write, simp, simp)
    apply (rule okLen_bind_len [OF createChunkHeader_ok [OF k(3)]], simp)
    apply (rule okLen_bind_len [OF createChunkHeader_ok [OF k(3)]], simp)
    apply (rule okLen_bind_len [OF createChunkHeader_ok [OF k(3)]])
    subgoal using n(2) by simp
    apply (rule okLen_bind_len [OF createChunkHeader_ok [OF k(3)]])
    subgoal using n(3) by simp
    apply (rule okLen_bind_len [OF createChunkHeader_ok [OF k(3)]])
    subgoal using n(4) by simp
    subgoal using assms(2) by (simp add: Buffer_concat_def okLen_def total)
    done
qed

text \<open>
  C8. When the encoder returns a file, the size field of its RIFF header (the four bytes
  at offset 4, little-endian) is the length of the file minus 8, and that length is the
  12 bytes of the header plus, for each of the five chunks, 8 bytes and the chunk.
\<close>

theorem riff_size_accounts_for_file:
  assumes "generateWavWithMarkers v K clk ms = Inr out"
  shows "\<exists>fmt bext dat cue lst.
          createFmtChunk K 44100 2 16 = Inr fmt
          \<and> createBextChunk v K clk = Inr bext
          \<and> createDataChunk K (jmul (wavDuration ms) (Num 44100)) 2 2 = Inr dat
          \<and> createCueChunk K ms 44100 = Inr cue
          \<and> createListChunk v K ms = Inr lst
          \<and> length out = 12 + (8 + length fmt) + (8 + length bext) + (8 + length dat)
                            + (8 + length cue) + (8 + length lst)
          \<and> readUInt32LE out 4 = Inr (length out - 8)"
proof -
  from generate_layout [OF assms] obtain riff h1 fmt h2 bext h3 dat h4 cue h5 lst where
    o: "out = riff @ h1 @ fmt @ h2 @ bext @ h3 @ dat @ h4 @ cue @ h5 @ lst"
    and c: "createFmtChunk K 44100 2 16 = Inr fmt" "createBextChunk v K clk = Inr bext"
      "createDataChunk K (jmul (wavDuration ms) (Num 44100)) 2 2 = Inr dat"
      "createCueChunk K ms 44100 = Inr cue" "createListChunk v K ms = Inr lst"
    and r: "length riff = 12"
      "slice riff 4 4 = leBytes 4 (4 + 8 + length fmt + 8 + length bext + 8 + length dat
                                     + 8 + length cue + 8 + length lst)"
      "4 + 8 + length fmt + 8 + length bext + 8 + length dat
         + 8 + length cue + 8 + length lst < 4294967296"
    and h: "createChunkHeader K ''fmt '' (length fmt) = Inr h1"
      "createChunkHeader K ''bext'' (length bext) = Inr h2"
      "createChunkHeader K ''data'' (length dat) = Inr h3"
      "createChunkHeader K ''cue '' (length cue) = Inr h4"
      "createChunkHeader K ''LIST'' (length lst) = Inr h5"
    by blast
  have hl: "length h1 = 8" "length h2 = 8" "length h3 = 8" "length h4 = 8" "length h5 = 8"
    using h createChunkHeader_Inr by blast+
  have len: "length out = 12 + (8 + length fmt) + (8 + length bext) + (8 + length dat)
                            + (8 + length cue) + (8 + length lst)"
    using o r(1) hl by simp
  have o': "out = [] @ riff @ (h1 @ fmt @ h2 @ bext @ h3 @ dat @ h4 @ cue @ h5 @ lst)"
    using o by simp
  have "readUInt32LE out (0 + 4) = Inr (4 + 8 + length fmt + 8 + length bext + 8 + length dat
                                     + 8 + length cue + 8 + length lst)"
    using r by (intro read_mid [OF o']) simp_all
  then have "readUInt32LE out 4 = Inr (length out - 8)" using len by simp
  with c len show ?thesis by blast
qed

theorem riff_size_accounts_for_file_witness:
  "\<exists>out. generateWavWithMarkers Web 4294967296
            \<lparr>nowMs = 1762000000000, fullYear = 2025, month = 10, date = 3,
             hours = 9, minutes = 5, seconds = 7\<rparr>
            [\<lparr>time = Num 0, name = ''Intro''\<rparr>] = Inr out
         \<and> length out = 177120 \<and> readUInt32LE out 4 = Inr 177112"
proof -
  let ?ms = "[\<lparr>time = Num 0, name = ''Intro''\<rparr>]"
  let ?clk = "\<lparr>nowMs = 1762000000000, fullYear = 2025, month = 10, date = 3,
             hours = 9, minutes = 5, seconds = 7\<rparr>"
  have sz: "wavSize ?ms = 177120"
    by (simp add: wavSize_def wavSeconds_def wavDuration_def lablSize_def paddedLength_def
        byteLength_def utf8_def utf8Char_def)
  have "okLen (generateWavWithMarkers Web 4294967296 ?clk ?ms) (wavSize ?ms)"
    by (rule generate_ok) (simp_all add: sz)
  then obtain out where out: "generateWavWithMarkers Web 4294967296 ?clk ?ms = Inr out"
    and len: "length out = 177120" by (auto simp: okLen_iff sz)
  from riff_size_accounts_for_file [OF out] have "readUInt32LE out 4 = Inr (length out - 8)"
    by blast
  with out len show ?thesis by simp
qed

text \<open>
  C2. When the encoder returns a file, the \<^verbatim>\<open>data\<close> chunk holds silence for a whole
  number \<open>secs\<close> of seconds, 176400 bytes each (44100 samples, two channels, two bytes):
  \<open>secs\<close> is 10 for no markers and the ceiling of the last marker's time plus 1
  otherwise. The size field of the chunk is at offset 650 and its samples start at 654.
  The \<^verbatim>\<open>cue\<close> chunk follows with the number of markers and, for each marker whose time
  is a number \<open>t\<close>, the sample position \<^verbatim>\<open>Math.floor(t * 44100)\<close>: the floor of the product
  as the code computes it, rounded to float64.
\<close>

theorem data_duration_and_cue_positions:
  assumes "generateWavWithMarkers v K clk ms = Inr out"
  shows "\<exists>secs. wavDuration ms = Num (of_nat secs)
          \<and> (ms = [] \<longrightarrow> secs = 10)
          \<and> (ms \<noteq> [] \<longrightarrow> (\<exists>t. time (last ms) = Num t \<and> int secs = \<lceil>t\<rceil> + 1))
          \<and> readUInt32LE out 650 = Inr (secs * 176400)
          \<and> slice out 654 (secs * 176400) = replicate (secs * 176400) 0
          \<and> readUInt32LE out (662 + secs * 176400) = Inr (length ms)
          \<and> (\<forall>i t. i < length ms \<longrightarrow> time (ms ! i) = Num t \<longrightarrow>
                (\<exists>p. float64 (t * 44100) = Num p
                   \<and> readUInt32LE out (670 + secs * 176400 + 24 * i) = Inr (nat \<lfloor>p\<rfloor>)))"
proof -
  from generate_layout [OF assms] obtain riff h1 fmt h2 bext h3 dat h4 cue h5 lst where
    o: "out = riff @ h1 @ fmt @ h2 @ bext @ h3 @ dat @ h4 @ cue @ h5 @ lst"
    and c: "createFmtChunk K 44100 2 16 = Inr fmt" "createBextChunk v K clk = Inr bext"
      "createDataChunk K (jmul (wavDuration ms) (Num 44100)) 2 2 = Inr dat"
      "createCueChunk K ms 44100 = Inr cue"
    and r: "length riff = 12"
    and h: "createChunkHeader K ''fmt '' (length fmt) = Inr h1"
      "createChunkHeader K ''bext'' (length bext) = Inr h2"
      "createChunkHeader K ''data'' (length dat) = Inr h3"
      "createChunkHeader K ''cue '' (length cue) = Inr h4"
    by blast
  have hl: "length h1 = 8" "length h2 = 8" "length h3 = 8" "length h4 = 8"
    using h createChunkHeader_Inr by blast+
  have h3: "slice h3 4 4 = leBytes 4 (length dat)" "length dat < 4294967296"
    using createChunkHeader_Inr [OF h(3)] by simp_all
  have fl: "length fmt = 16" using c(1) by (rule createFmtChunk_length)
  have bl: "length bext = 602" using c(2) by (rule createBextChunk_length)
  from data_chunk_seconds [OF c(3) h3(2)] obtain secs where
    ds: "wavDuration ms = Num (of_nat secs)"
    and dz: "dat = replicate (secs * 176400) 0"
    and e: "ms = [] \<longrightarrow> secs = 10"
    and ne: "ms \<noteq> [] \<longrightarrow> (\<exists>t. time (last ms) = Num t \<and> int secs = \<lceil>t\<rceil> + 1)"
    by blast
  have dl: "length dat = secs * 176400" using dz by simp
  have o3: "out = (riff @ h1 @ fmt @ h2 @ bext) @ h3 @ (dat @ h4 @ cue @ h5 @ lst)"
    using o by simp
  have "readUInt32LE out (646 + 4) = Inr (length dat)"
    using h3 hl r fl bl by (intro read_mid [OF o3]) simp_all
  then have rd: "readUInt32LE out 650 = Inr (secs * 176400)" using dl by simp
  have od: "out = (riff @ h1 @ fmt @ h2 @ bext @ h3) @ dat @ (h4 @ cue @ h5 @ lst)"
    using o by simp
  have sd: "slice out 654 (secs * 176400) = replicate (secs * 176400) 0"
    using slice_mid [OF od, of 654 "secs * 176400"] r hl fl bl dl dz by simp
  have oc: "out = (riff @ h1 @ fmt @ h2 @ bext @ h3 @ dat @ h4) @ cue @ (h5 @ lst)"
    using o by simp
  have pre: "length (riff @ h1 @ fmt @ h2 @ bext @ h3 @ dat @ h4) = 662 + secs * 176400"
    using r hl fl bl dl by simp
  note cq = createCueChunk_Inr [OF c(4)]
  have "readUInt32LE out (662 + secs * 176400 + 0) = Inr (length ms)"
    using cq(1) by (intro read_mid [OF oc pre]) simp_all
  then have rc: "readUInt32LE out (662 + secs * 176400) = Inr (length ms)" by simp
  have rp: "\<forall>i t. i < length ms \<longrightarrow> time (ms ! i) = Num t \<longrightarrow>
              (\<exists>p. float64 (t * 44100) = Num p
                 \<and> readUInt32LE out (670 + secs * 176400 + 24 * i) = Inr (nat \<lfloor>p\<rfloor>))"
  proof (intro allI impI)
    fix i t
    assume i: "i < length ms" and t: "time (ms ! i) = Num t"
    from cq(2) [OF i t] obtain p where fp: "float64 (t * 44100) = Num p"
      and s: "slice cue (8 + 24 * i) 4 = leBytes 4 (nat \<lfloor>p\<rfloor>)"
      and p: "0 \<le> \<lfloor>p\<rfloor>" "\<lfloor>p\<rfloor> < 4294967296" by blast
    have "\<And>q :: int. 0 \<le> q \<Longrightarrow> q < 4294967296 \<Longrightarrow> nat q < 4294967296" by simp
    from this [OF p] have "nat \<lfloor>p\<rfloor> < 4294967296" .
    moreover have "8 + 24 * i + 4 \<le> length cue" using cq(1) i by simp
    ultimately have "readUInt32LE out (662 + secs * 176400 + (8 + 24 * i))
                     = Inr (nat \<lfloor>p\<rfloor>)"
      using s by (intro read_mid [OF oc pre]) simp_all
    then have "readUInt32LE out (670 + secs * 176400 + 24 * i) = Inr (nat \<lfloor>p\<rfloor>)"
      by (simp add: add.assoc add.left_commute)
    with fp show "\<exists>p. float64 (t * 44100) = Num p
                 \<and> readUInt32LE out (670 + secs * 176400 + 24 * i) = Inr (nat \<lfloor>p\<rfloor>)"
      by blast
  qed
  show ?thesis
    using ds e ne rd sd rc rp by blast
qed

theorem data_duration_and_cue_positions_witness:
  "(\<exists>out. generateWavWithMarkers Web 4294967296
            \<lparr>nowMs = 1762000000000, fullYear = 2025, month = 10, date = 3,
             hours = 9, minutes = 5, seconds = 7\<rparr>
            [\<lparr>time = Num 0, name = ''Intro''\<rparr>, \<lparr>time = Num (21 / 2), name = ''Verse 1''\<rparr>,
             \<lparr>time = Num 90, name = ''Chorus''\<rparr>,
             \<lparr>time = Num (211 / 2), name = ''Bridge''\<rparr>] = Inr out
      \<and> readUInt32LE out 650 = Inr (107 * 176400)
      \<and> readUInt32LE out (662 + 107 * 176400) = Inr 4
      \<and> readUInt32LE out (670 + 107 * 176400) = Inr 0
      \<and> readUInt32LE out (670 + 107 * 176400 + 24) = Inr 463050
      \<and> readUInt32LE out (670 + 107 * 176400 + 48) = Inr 3969000
      \<and> readUInt32LE out (670 + 107 * 176400 + 72) = Inr 4652550)
   \<and> (\<exists>out. generateWavWithMarkers Web 4294967296
            \<lparr>nowMs = 1762000000000, fullYear = 2025, month = 10, date = 3,
             hours = 9, minutes = 5, seconds = 7\<rparr> [] = Inr out
      \<and> readUInt32LE out 650 = Inr (10 * 176400))
   \<and> (\<exists>out. generateWavWithMarkers Web 4294967296
            \<lparr>nowMs = 1762000000000, fullYear = 2025, month = 10, date = 3,
             hours = 9, minutes = 5, seconds = 7\<rparr>
            [\<lparr>time = Num (5404319552844595 / 18014398509481984), name = ''A''\<rparr>] = Inr out
      \<and> readUInt32LE out 650 = Inr (2 * 176400)
      \<and> readUInt32LE out (670 + 2 * 176400) = Inr 13230)"
proof -
  let ?clk = "\<lparr>nowMs = 1762000000000, fullYear = 2025, month = 10, date = 3,
             hours = 9, minutes = 5, seconds = 7\<rparr>"
  let ?ms = "[\<lparr>time = Num 0, name = ''Intro''\<rparr>, \<lparr>time = Num (21 / 2), name = ''Verse 1''\<rparr>,
             \<lparr>time = Num 90, name = ''Chorus''\<rparr>,
             \<lparr>time = Num (211 / 2), name = ''Bridge''\<rparr>]"
  let ?third = "5404319552844595 / 18014398509481984 :: rat"
  let ?m3 = "[\<lparr>time = Num ?third, name = ''A''\<rparr>]"
  have ti: "\<And>m t. time m = Num t \<Longrightarrow> 0 \<le> t \<Longrightarrow> t * 44100 \<le> 4294967295
             \<Longrightarrow> \<exists>t. time m = Num t \<and> 0 \<le> t \<and> t * 44100 \<le> 4294967295"
    by blast
  have first: "\<exists>out. generateWavWithMarkers Web 4294967296 ?clk ?ms = Inr out
      \<and> readUInt32LE out 650 = Inr (107 * 176400)
      \<and> readUInt32LE out (662 + 107 * 176400) = Inr 4
      \<and> readUInt32LE out (670 + 107 * 176400) = Inr 0
      \<and> readUInt32LE out (670 + 107 * 176400 + 24) = Inr 463050
      \<and> readUInt32LE out (670 + 107 * 176400 + 48) = Inr 3969000
      \<and> readUInt32LE out (670 + 107 * 176400 + 72) = Inr 4652550"
  proof -
    have c: "\<lceil>211 / 2 :: rat\<rceil> = 106" by (rule ceiling_unique) simp_all
    have wd: "wavDuration ?ms = Num 107" by (simp add: wavDuration_def c float64_values)
    have sz: "wavSize ?ms = 18875652"
      by (simp add: wavSize_def wavSeconds_def wd lablSize_def paddedLength_def
          byteLength_def utf8_def utf8Char_def)
    have la: "list_all (\<lambda>m. \<exists>t. time m = Num t \<and> 0 \<le> t \<and> t * 44100 \<le> 4294967295) ?ms"
      using ti [of "\<lparr>time = Num 0, name = ''Intro''\<rparr>" 0]
        ti [of "\<lparr>time = Num (21 / 2), name = ''Verse 1''\<rparr>" "21 / 2"]
        ti [of "\<lparr>time = Num 90, name = ''Chorus''\<rparr>" 90]
        ti [of "\<lparr>time = Num (211 / 2), name = ''Bridge''\<rparr>" "211 / 2"]
      by simp
    have "okLen (generateWavWithMarkers Web 4294967296 ?clk ?ms) (wavSize ?ms)"
      using la by (rule generate_ok) (simp_all add: sz)
    then obtain out where out: "generateWavWithMarkers Web 4294967296 ?clk ?ms = Inr out"
      by (auto simp: okLen_iff)
    from data_duration_and_cue_positions [OF out] obtain secs where
      d: "wavDuration ?ms = Num (of_nat secs)"
      and r: "readUInt32LE out 650 = Inr (secs * 176400)"
        "readUInt32LE out (662 + secs * 176400) = Inr (length ?ms)"
      and p: "\<forall>i t. i < length ?ms \<longrightarrow> time (?ms ! i) = Num t \<longrightarrow>
                (\<exists>p. float64 (t * 44100) = Num p
                   \<and> readUInt32LE out (670 + secs * 176400 + 24 * i) = Inr (nat \<lfloor>p\<rfloor>))"
      by blast
    from d wd have "(of_nat secs :: rat) = of_nat 107" by simp
    then have secs: "secs = 107" by (simp only: of_nat_eq_iff)
    have "\<exists>p. float64 (0 * 44100) = Num p
            \<and> readUInt32LE out (670 + secs * 176400 + 24 * 0) = Inr (nat \<lfloor>p\<rfloor>)"
      by (rule p [rule_format]) simp_all
    then have p0: "readUInt32LE out (670 + secs * 176400 + 24 * 0) = Inr 0" by simp
    have "\<exists>p. float64 (21 / 2 * 44100) = Num p
            \<and> readUInt32LE out (670 + secs * 176400 + 24 * 1) = Inr (nat \<lfloor>p\<rfloor>)"
      by (rule p [rule_format]) simp_all
    then have p1: "readUInt32LE out (670 + secs * 176400 + 24 * 1) = Inr 463050"
      by (simp add: float64_values)
    have "\<exists>p. float64 (90 * 44100) = Num p
            \<and> readUInt32LE out (670 + secs * 176400 + 24 * 2) = Inr (nat \<lfloor>p\<rfloor>)"
      by (rule p [rule_format]) simp_all
    then have p2: "readUInt32LE out (670 + secs * 176400 + 24 * 2) = Inr 3969000"
      by (simp add: float64_values)
    have "\<exists>p. float64 (211 / 2 * 44100) = Num p
            \<and> readUInt32LE out (670 + secs * 176400 + 24 * 3) = Inr (nat \<lfloor>p\<rfloor>)"
      by (rule p [rule_format]) simp_all
    then have p3: "readUInt32LE out (670 + secs * 176400 + 24 * 3) = Inr 4652550"
      by (simp add: float64_values)
    show ?thesis
      using out r p0 p1 p2 p3 unfolding secs by simp
  qed
  have second: "\<exists>out. generateWavWithMarkers Web 4294967296 ?clk [] = Inr out
      \<and> readUInt32LE out 650 = Inr (10 * 176400)"
  proof -
    have sz0: "wavSize [] = 1764678"
      by (simp add: wavSize_def wavSeconds_def wavDuration_def lablSize_def)
    have "okLen (generateWavWithMarkers Web 4294967296 ?clk []) (wavSize [])"
      by (rule generate_ok) (simp_all add: sz0)
    then obtain out0 where out0: "generateWavWithMarkers Web 4294967296 ?clk [] = Inr out0"
      by (auto simp: okLen_iff)
    from data_duration_and_cue_positions [OF out0]
    have "readUInt32LE out0 650 = Inr (10 * 176400)" by auto
    with out0 show ?thesis by blast
  qed
  have third: "\<exists>out. generateWavWithMarkers Web 4294967296 ?clk ?m3 = Inr out
      \<and> readUInt32LE out 650 = Inr (2 * 176400)
      \<and> readUInt32LE out (670 + 2 * 176400) = Inr 13230"
  proof -
    have c: "\<lceil>?third\<rceil> = 1" by (rule ceiling_unique) simp_all
    have wd: "wavDuration ?m3 = Num 2" by (simp add: wavDuration_def c float64_values)
    have sz: "wavSize ?m3 = 353516"
      by (simp add: wavSize_def wavSeconds_def wd lablSize_def paddedLength_def
          byteLength_def utf8_def utf8Char_def)
    have la: "list_all (\<lambda>m. \<exists>t. time m = Num t \<and> 0 \<le> t \<and> t * 44100 \<le> 4294967295) ?m3"
      using ti [of "\<lparr>time = Num ?third, name = ''A''\<rparr>" ?third] by simp
    have "okLen (generateWavWithMarkers Web 4294967296 ?clk ?m3) (wavSize ?m3)"
      using la by (rule generate_ok) (simp_all add: sz)
    then obtain out where out: "generateWavWithMarkers Web 4294967296 ?clk ?m3 = Inr out"
      by (auto simp: okLen_iff)
    from data_duration_and_cue_positions [OF out] obtain secs where
      d: "wavDuration ?m3 = Num (of_nat secs)"
      and r: "readUInt32LE out 650 = Inr (secs * 176400)"
      and p: "\<forall>i t. i < length ?m3 \<longrightarrow> time (?m3 ! i) = Num t \<longrightarrow>
                (\<exists>p. float64 (t * 44100) = Num p
                   \<and> readUInt32LE out (670 + secs * 176400 + 24 * i) = Inr (nat \<lfloor>p\<rfloor>))"
      by blast
    from d wd have "(of_nat secs :: rat) = of_nat 2" by simp
    then have secs: "secs = 2" by (simp only: of_nat_eq_iff)
    have f: "float64 (?third * 44100) = Num 13230"
      using float64_eqI [of "?third * 44100" 13 "- 39" "13230 * 2 ^ 39"]
      by (simp add: overflowBound_def)
    have "\<exists>p. float64 (?third * 44100) = Num p
            \<and> readUInt32LE out (670 + secs * 176400 + 24 * 0) = Inr (nat \<lfloor>p\<rfloor>)"
      by (rule p [rule_format]) simp_all
    then have "readUInt32LE out (670 + secs * 176400 + 24 * 0) = Inr 13230"
      unfolding f by simp
    with out r show ?thesis unfolding secs by simp
  qed
  from first second third show ?thesis by blast
qed

subsection \<open>The label sub-chunks\<close>

lemma utf8Fit_all: "byteLength s \<le> n \<Longrightarrow> utf8Fit n s = utf8 s"
proof (induction s arbitrary: n)
  case Nil
  then show ?case by (simp add: utf8_def)
next
  case (Cons c s)
  from Cons.prems have a: "length (utf8Char c) \<le> n"
    and b: "byteLength s \<le> n - length (utf8Char c)"
    by (simp_all add: byteLength_def utf8_def)
  from Cons.IH [OF b] a show ?case by (simp add: utf8_def)
qed

lemma writeBytes_zeros:
  "length bs \<le> k \<Longrightarrow>
   writeBytes (xs @ replicate k 0) bs (length xs) = xs @ bs @ replicate (k - length bs) 0"
  by (simp add: writeBytes_def)

lemma lablSubChunk_layout:
  assumes "lablSubChunk v K m index = Inr sub"
  shows "sub = utf8 ''labl'' @ leBytes 4 (4 + paddedLength (name m)) @ leBytes 4 (index + 1)
             @ writeBytes (utf8 (name m)
                           @ replicate (paddedLength (name m) - byteLength (name m)) 0) [0]
                 (case v of Desktop \<Rightarrow> length (name m) | Web \<Rightarrow> byteLength (name m))"
proof -
  let ?p = "paddedLength (name m)"
  let ?bl = "byteLength (name m)"
  let ?t = "case v of Desktop \<Rightarrow> length (name m) | Web \<Rightarrow> byteLength (name m)"
  let ?L = "utf8 ''labl''"
  let ?S = "leBytes 4 (4 + ?p)"
  let ?I = "leBytes 4 (index + 1)"
  have pd: "byteLength (name m) + 1 + (byteLength (name m) + 1) mod 2 = ?p"
    by (simp add: paddedLength_def)
  from assms obtain s0 s1 s2 s3 s4 where
    s0: "Buffer_alloc K (numOf (12 + ?p)) = Inr s0"
    and s1: "Buffer_write s0 ''labl'' 0 = Inr s1"
    and s2: "writeUInt 4 s1 (numOf (4 + ?p)) 4 = Inr s2"
    and s3: "writeUInt 4 s2 (numOf (index + 1)) 8 = Inr s3"
    and s4: "Buffer_write s3 (name m) 12 = Inr s4"
    and s5: "writeUInt 1 s4 (Num 0) (12 + ?t) = Inr sub"
    unfolding lablSubChunk_def Let_def writeUInt32LE_def writeUInt8_def pd
    by (auto simp: add.assoc)
  have lL: "length ?L = 4" by (simp add: utf8_def utf8Char_def)
  have blp: "?bl < ?p" by (rule byteLength_less_padded)
  have e0: "s0 = [] @ replicate (12 + ?p) 0"
    using s0 by (auto simp: Buffer_alloc_numOf split: if_splits)
  have f1: "utf8Fit (12 + ?p) ''labl'' = ?L"
    by (rule utf8Fit_all) (simp add: byteLength_def lL)
  have e1: "s1 = [] @ ?L @ replicate (8 + ?p) 0"
    using s1 unfolding e0 Buffer_write_def
    using writeBytes_zeros [of ?L "12 + ?p" "[]"] by (simp add: f1 lL del: utf8Fit.simps)
  then have e1': "s1 = ?L @ replicate (8 + ?p) 0" by simp
  have e2: "s2 = ?L @ ?S @ replicate (4 + ?p) 0"
    using s2 unfolding e1'
    using writeBytes_zeros [of ?S "8 + ?p" ?L]
    by (auto simp: writeUInt_numOf lL split: if_splits)
  then have e2': "s2 = (?L @ ?S) @ replicate (4 + ?p) 0" by simp
  have e3: "s3 = (?L @ ?S) @ ?I @ replicate ?p 0"
    using s3 unfolding e2'
    using writeBytes_zeros [of ?I "4 + ?p" "?L @ ?S"]
    by (auto simp: writeUInt_numOf lL split: if_splits)
  then have e3': "s3 = (?L @ ?S @ ?I) @ replicate ?p 0" by simp
  have f4: "utf8Fit ?p (name m) = utf8 (name m)"
    using blp by (intro utf8Fit_all) simp
  have e4: "s4 = (?L @ ?S @ ?I) @ utf8 (name m) @ replicate (?p - ?bl) 0"
    using s4 unfolding e3' Buffer_write_def
    using writeBytes_zeros [of "utf8 (name m)" ?p "?L @ ?S @ ?I"] blp
    by (simp add: f4 lL byteLength_def del: utf8Fit.simps)
  have "sub = writeBytes s4 [0] (12 + ?t)"
    using s5 by (simp add: writeUInt_Num)
  also have "\<dots> = (?L @ ?S @ ?I)
        @ writeBytes (utf8 (name m) @ replicate (?p - ?bl) 0) [0] ?t"
    unfolding e4 by (simp add: writeBytes_def lL)
  finally show ?thesis by simp
qed

lemma lablSubChunk_web_layout:
  assumes "lablSubChunk Web K m index = Inr sub"
  shows "sub = utf8 ''labl'' @ leBytes 4 (4 + paddedLength (name m)) @ leBytes 4 (index + 1)
             @ utf8 (name m) @ [0]
             @ replicate (paddedLength (name m) - byteLength (name m) - 1) 0"
proof -
  have "byteLength (name m) < paddedLength (name m)" by (rule byteLength_less_padded)
  then have "writeBytes (utf8 (name m)
               @ replicate (paddedLength (name m) - byteLength (name m)) 0) [0]
               (length (utf8 (name m)))
             = utf8 (name m) @ [0]
               @ replicate (paddedLength (name m) - byteLength (name m) - length [0 :: 8 word]) 0"
    by (intro writeBytes_zeros) simp
  with lablSubChunk_layout [OF assms] show ?thesis by (simp add: byteLength_def)
qed

lemma padding_at_most_one: "paddedLength s - byteLength s - 1 \<le> 1"
  by (simp add: paddedLength_def)

text \<open>
  C1. The claim holds that the null terminator follows the last UTF-8 byte of the label,
  so that a label of non-ASCII characters is written whole. The web port does so
  (\<open>lablSubChunk_web_layout\<close>). The desktop encoder writes the terminator at
  \<^verbatim>\<open>12 + label.length\<close>, which counts UTF-16 code units, not bytes: for the label of the
  five characters A-ring, space, A-diaeresis, space, O-diaeresis (8 bytes) the terminator
  replaces the sixth byte, the second space, and the label read back ends there.
\<close>

theorem labl_terminator_inside_label:
  "lablSubChunk Desktop 4294967296
     \<lparr>time = Num 0, name = [CHR 0xC5, CHR 0x20, CHR 0xC4, CHR 0x20, CHR 0xD6]\<rparr> 0
   = Inr [0x6C, 0x61, 0x62, 0x6C, 14, 0, 0, 0, 1, 0, 0, 0,
          0xC3, 0x85, 0x20, 0xC3, 0x84, 0x00, 0xC3, 0x96, 0, 0]
   \<and> utf8 [CHR 0xC5, CHR 0x20, CHR 0xC4, CHR 0x20, CHR 0xD6]
       = [0xC3, 0x85, 0x20, 0xC3, 0x84, 0x20, 0xC3, 0x96]
   \<and> lablSubChunk Web 4294967296
     \<lparr>time = Num 0, name = [CHR 0xC5, CHR 0x20, CHR 0xC4, CHR 0x20, CHR 0xD6]\<rparr> 0
   = Inr [0x6C, 0x61, 0x62, 0x6C, 14, 0, 0, 0, 1, 0, 0, 0,
          0xC3, 0x85, 0x20, 0xC3, 0x84, 0x20, 0xC3, 0x96, 0, 0]"
proof -
  let ?m = "\<lparr>time = Num 0, name = [CHR 0xC5, CHR 0x20, CHR 0xC4, CHR 0x20, CHR 0xD6]\<rparr>"
  have u: "utf8 [CHR 0xC5, CHR 0x20, CHR 0xC4, CHR 0x20, CHR 0xD6]
       = [0xC3, 0x85, 0x20, 0xC3, 0x84, 0x20, 0xC3, 0x96]"
    by (simp add: utf8_def utf8Char_def)
  have p: "paddedLength [CHR 0xC5, CHR 0x20, CHR 0xC4, CHR 0x20, CHR 0xD6] = 10"
    "byteLength [CHR 0xC5, CHR 0x20, CHR 0xC4, CHR 0x20, CHR 0xD6] = 8"
    by (simp_all add: paddedLength_def byteLength_def u)
  have l: "utf8 ''labl'' = [0x6C, 0x61, 0x62, 0x6C]" by (simp add: utf8_def utf8Char_def)
  have r: "replicate 2 (0 :: 8 word) = [0, 0]" by (simp add: numeral_2_eq_2)
  have ok: "\<And>v. okLen (lablSubChunk v 4294967296 ?m 0) (12 + paddedLength (name ?m))"
    by (rule lablSubChunk_ok) (simp_all add: p)
  from ok [of Desktop] obtain d where d: "lablSubChunk Desktop 4294967296 ?m 0 = Inr d"
    by (auto simp: okLen_iff)
  from ok [of Web] obtain w where w: "lablSubChunk Web 4294967296 ?m 0 = Inr w"
    by (auto simp: okLen_iff)
  have "d = [0x6C, 0x61, 0x62, 0x6C, 14, 0, 0, 0, 1, 0, 0, 0,
          0xC3, 0x85, 0x20, 0xC3, 0x84, 0x00, 0xC3, 0x96, 0, 0]"
    using lablSubChunk_layout [OF d] by (simp add: p u l r leBytes_4 writeBytes_def)
  moreover have "w = [0x6C, 0x61, 0x62, 0x6C, 14, 0, 0, 0, 1, 0, 0, 0,
          0xC3, 0x85, 0x20, 0xC3, 0x84, 0x20, 0xC3, 0x96, 0, 0]"
    using lablSubChunk_layout [OF w] by (simp add: p u l r leBytes_4 writeBytes_def)
  ultimately show ?thesis using d w u by simp
qed

section \<open>Properties of the conversion handlers\<close>

lemma generate_empty_ok:
  assumes "1764678 \<le> K"
  shows "\<exists>out. generateWavWithMarkers v K clk [] = Inr out"
proof -
  have sz: "wavSize [] = 1764678"
    by (simp add: wavSize_def wavSeconds_def wavDuration_def lablSize_def)
  have "okLen (generateWavWithMarkers v K clk []) (wavSize [])"
    using assms by (intro generate_ok) (simp_all add: sz)
  then show ?thesis by (auto simp: okLen_iff)
qed

lemma desktop_no_markers_succeeds:
  assumes "parseCSVWithSelectedFields engineOrder csvContent frameRate timeColumn
             selectedFields = Inr []"
    and "1764678 \<le> K"
  shows "isSuccess (generateWavHandler engineOrder K clk csvContent frameRate timeColumn
                      selectedFields (Some path))"
proof -
  from generate_empty_ok [OF assms(2)] obtain out where
    "generateWavWithMarkers Desktop K clk [] = Inr out" by blast
  with assms(1) show ?thesis by (simp add: generateWavHandler_def isSuccess_def)
qed

lemma web_no_markers_fails:
  assumes "parseCSVWithSelectedFields engineOrder csvContent frameRate timeColumn
             selectedFields = Inr []"
    and "timeColumn \<noteq> []"
  shows "POST engineOrder K clk (Some csvContent) frameRate timeColumn (Some selectedFields)
         = Json400 ''No valid markers found in CSV''"
  using assms by (simp add: POST_def)

text \<open>
  C6. The claim holds that a conversion without any valid marker fails with an error and
  produces no file. The web handler does so (\<open>web_no_markers_fails\<close>). The desktop handler
  has no such test: for a CSV whose only row has the time cell \<^verbatim>\<open>abc\<close> the marker list is
  empty, and the handler still writes a file (ten seconds of silence, no cue point) and
  answers with success.
\<close>

theorem no_markers_desktop_writes_file:
  "parseCSVWithSelectedFields engineOrder (''time,name'' @ [CHR 0x0A] @ ''abc,Intro'')
     (Num 30) ''time'' [''name''] = Inr []
   \<and> isSuccess (generateWavHandler engineOrder 4294967296
        \<lparr>nowMs = 1762000000000, fullYear = 2025, month = 10, date = 3,
         hours = 9, minutes = 5, seconds = 7\<rparr>
        (''time,name'' @ [CHR 0x0A] @ ''abc,Intro'') (Num 30) ''time'' [''name'']
        (Some ''markers.wav''))
   \<and> POST engineOrder 4294967296
        \<lparr>nowMs = 1762000000000, fullYear = 2025, month = 10, date = 3,
         hours = 9, minutes = 5, seconds = 7\<rparr>
        (Some (''time,name'' @ [CHR 0x0A] @ ''abc,Intro'')) (Num 30) ''time''
        (Some [''name''])
       = Json400 ''No valid markers found in CSV''"
proof -
  have ev: "parseCSVWithSelectedFields engineOrder
     (''time,name'' @ [CHR 0x0A] @ ''abc,Intro'') (Num 30) ''time'' [''name''] = Inr []"
    by (simp add: parseCSVWithSelectedFields_def extractMarkers_def parseCSVWithHeaders_def
        trim_def isWhiteSpace_def split_def parseCSVLine_def rowGet_def rowSet_def
        valueAt_def parseTime_def parseFloat_def trimStart_def stripSign_def isSign_def
        isNegative_def isDigit_def isNaN_def sortMarkers_def consistentComparator_def)
  show ?thesis
    using ev desktop_no_markers_succeeds [OF ev] web_no_markers_fails [OF ev] by simp
qed

end
